theory Spec2Isabelle
  imports Complex_Main
begin

section \<open>The popup-menu engine of phosphor-ui (menu part of \<^verbatim>\<open>src/src/box-panel.ts\<close>)\<close>

text \<open>
  The menus, their items and their item nodes are objects of the JavaScript heap. A menu
  is referred to by its address in an explicit store (a list of menu records), so that the
  mutual \<^verbatim>\<open>_parentMenu\<close> / \<^verbatim>\<open>_childMenu\<close> pointers and their aliasing are
  visible. JavaScript numbers are modelled by \<open>real\<close> where the source accepts any number
  (indices given to the public interface, coordinates) and by \<open>int\<close> where the source only
  ever stores an integer (\<^verbatim>\<open>_activeIndex\<close>, \<^verbatim>\<open>_childIndex\<close>); \<^verbatim>\<open>NaN\<close>, the
  infinities and floating-point rounding are outside the model. A \<^verbatim>\<open>TypeError\<close> raised
  by a property access on \<^verbatim>\<open>undefined\<close> is the value \<open>Inl TypeError\<close>.
\<close>

subsection \<open>Constants\<close>

definition ITEM_CLASS :: string where "ITEM_CLASS = ''p-Menu-item''"
definition ICON_CLASS :: string where "ICON_CLASS = ''p-Menu-itemIcon''"
definition NORMAL_TYPE_CLASS :: string where "NORMAL_TYPE_CLASS = ''p-type-normal''"
definition CHECK_TYPE_CLASS :: string where "CHECK_TYPE_CLASS = ''p-type-check''"
definition RADIO_TYPE_CLASS :: string where "RADIO_TYPE_CLASS = ''p-type-radio''"
definition SEPARATOR_TYPE_CLASS :: string where "SEPARATOR_TYPE_CLASS = ''p-type-separator''"
definition SUBMENU_TYPE_CLASS :: string where "SUBMENU_TYPE_CLASS = ''p-type-submenu''"
definition ACTIVE_CLASS :: string where "ACTIVE_CLASS = ''p-mod-active''"
definition DISABLED_CLASS :: string where "DISABLED_CLASS = ''p-mod-disabled''"
definition CHECKED_CLASS :: string where "CHECKED_CLASS = ''p-mod-checked''"
definition HIDDEN_CLASS :: string where "HIDDEN_CLASS = ''p-mod-hidden''"

definition SUBMENU_OVERLAP :: real where "SUBMENU_OVERLAP = 3"

subsection \<open>Menu items\<close>

type_synonym ref = nat

datatype error = TypeError

datatype MenuItemType = Normal | Check | Radio | Submenu | Separator

text \<open>The class \<^verbatim>\<open>MenuItem\<close>; \<open>submenu\<close> is the address of the nested menu or \<open>None\<close>
  for \<^verbatim>\<open>null\<close>, \<open>args\<close> is an opaque JSON text.\<close>

record MenuItem =
  type :: MenuItemType
  text' :: string
  icon :: string
  shortcut :: string
  checked :: bool
  disabled :: bool
  hidden :: bool
  className :: string
  command :: string
  args :: "string option"
  submenu :: "ref option"

text \<open>The field initialisers of \<^verbatim>\<open>MenuItem\<close>: the item built by \<^verbatim>\<open>new MenuItem()\<close>.\<close>

definition MenuItem_default :: MenuItem where
  "MenuItem_default =
     \<lparr>type = Normal, text' = [], icon = [], shortcut = [], checked = False,
      disabled = False, hidden = False, className = [], command = [], args = None,
      submenu = None\<rparr>"

text \<open>\<^verbatim>\<open>Private.isSelectable\<close>.\<close>

definition isSelectable :: "MenuItem \<Rightarrow> bool" where
  "isSelectable item \<longleftrightarrow> \<not> (type item = Separator \<or> disabled item \<or> hidden item)"

subsection \<open>Item nodes and the default renderer\<close>

text \<open>An item node is the \<^verbatim>\<open>li\<close> element made by \<^verbatim>\<open>createItemNode\<close>: its class list (the
  tokens of \<^verbatim>\<open>className\<close>), the class list of its icon child and the text contents of its
  text and shortcut children.\<close>

record Node =
  classList :: "string list"
  iconClassList :: "string list"
  textContent :: string
  shortcutContent :: string

definition isSpace :: "char \<Rightarrow> bool" where
  "isSpace c \<longleftrightarrow> c \<in> set [CHR '' '', CHR 0x09, CHR 0x0A, CHR 0x0C, CHR 0x0D]"

text \<open>The tokens of a class name: the maximal runs of characters other than ASCII
  white space, each once (a DOM token list is an ordered set).\<close>

fun tokens_acc :: "string \<Rightarrow> string \<Rightarrow> string list" where
  "tokens_acc acc [] = (if acc = [] then [] else [rev acc])"
| "tokens_acc acc (c # cs) =
     (if isSpace c then (if acc = [] then tokens_acc [] cs else rev acc # tokens_acc [] cs)
      else tokens_acc (c # acc) cs)"

definition tokens :: "string \<Rightarrow> string list" where
  "tokens s = remdups (rev (remdups (rev (tokens_acc [] s))))"

definition classList_add :: "string \<Rightarrow> Node \<Rightarrow> Node" where
  "classList_add c node =
     (if c \<in> set (classList node) then node
      else node\<lparr>classList := classList node @ [c]\<rparr>)"

definition classList_remove :: "string \<Rightarrow> Node \<Rightarrow> Node" where
  "classList_remove c node =
     (if c \<in> set (classList node)
      then node\<lparr>classList := filter (\<lambda>x. x \<noteq> c) (classList node)\<rparr>
      else node)"

text \<open>\<^verbatim>\<open>MenuItemRenderer.createItemNode\<close>.\<close>

definition createItemNode :: Node where
  "createItemNode =
     \<lparr>classList = [ITEM_CLASS], iconClassList = [], textContent = [], shortcutContent = []\<rparr>"

text \<open>\<^verbatim>\<open>MenuItemRenderer.createItemClassName\<close>, the string it builds.\<close>

definition createItemClassName :: "MenuItem \<Rightarrow> string" where
  "createItemClassName item =
     (let name = ITEM_CLASS;
          name = (case type item of
             Normal \<Rightarrow>
               (let name = name @ '' '' @ NORMAL_TYPE_CLASS
                in if disabled item then name @ '' '' @ DISABLED_CLASS else name)
           | Check \<Rightarrow>
               (let name = name @ '' '' @ CHECK_TYPE_CLASS;
                    name = (if checked item then name @ '' '' @ CHECKED_CLASS else name)
                in if disabled item then name @ '' '' @ DISABLED_CLASS else name)
           | Radio \<Rightarrow>
               (let name = name @ '' '' @ RADIO_TYPE_CLASS;
                    name = (if checked item then name @ '' '' @ CHECKED_CLASS else name)
                in if disabled item then name @ '' '' @ DISABLED_CLASS else name)
           | Submenu \<Rightarrow>
               (let name = name @ '' '' @ SUBMENU_TYPE_CLASS
                in if disabled item then name @ '' '' @ DISABLED_CLASS else name)
           | Separator \<Rightarrow> name @ '' '' @ SEPARATOR_TYPE_CLASS);
          name = (if hidden item then name @ '' '' @ HIDDEN_CLASS else name)
      in if className item \<noteq> [] then name @ '' '' @ className item else name)"

text \<open>\<^verbatim>\<open>MenuItemRenderer.createIconClassName\<close>.\<close>

definition createIconClassName :: "MenuItem \<Rightarrow> string" where
  "createIconClassName item =
     (let name = ICON_CLASS
      in if type item \<noteq> Separator \<and> icon item \<noteq> [] then name @ '' '' @ icon item else name)"

text \<open>\<^verbatim>\<open>text.replace(/&&/g, '')\<close>: every occurrence of the marker, found from the left
  without overlap, is removed.\<close>

fun removeMarkers :: "string \<Rightarrow> string" where
  "removeMarkers (a # b # cs) =
     (if a = CHR ''&'' \<and> b = CHR ''&'' then removeMarkers cs
      else a # removeMarkers (b # cs))"
| "removeMarkers cs = cs"

text \<open>\<^verbatim>\<open>MenuItemRenderer.updateItemNode\<close>.\<close>

definition updateItemNode :: "Node \<Rightarrow> MenuItem \<Rightarrow> Node" where
  "updateItemNode node item =
     (let sub = (type item = Submenu);
          sep = (type item = Separator)
      in node\<lparr>classList := tokens (createItemClassName item),
              iconClassList := tokens (createIconClassName item),
              textContent := (if sep then [] else removeMarkers (text' item)),
              shortcutContent := (if sep \<or> sub then [] else shortcut item)\<rparr>)"

subsection \<open>Separator collapsing\<close>

text \<open>\<^verbatim>\<open>nodes.at(k).classList.add(HIDDEN_CLASS)\<close>; \<^verbatim>\<open>at\<close> gives \<^verbatim>\<open>undefined\<close> out of
  range and the property access then raises.\<close>

definition hideNode :: "Node list \<Rightarrow> int \<Rightarrow> error + Node list" where
  "hideNode nodes k =
     (if 0 \<le> k \<and> k < int (length nodes)
      then Inr (nodes[nat k := classList_add HIDDEN_CLASS (nodes ! nat k)])
      else Inl TypeError)"

text \<open>The first loop of \<^verbatim>\<open>Private.hideExtraSeparators\<close> (leading separators); it returns
  the nodes and the final value of \<^verbatim>\<open>k1\<close>.\<close>

function hideLeading :: "MenuItem list \<Rightarrow> Node list \<Rightarrow> int \<Rightarrow> error + (Node list \<times> int)" where
  "hideLeading items nodes k1 =
     (if 0 \<le> k1 \<and> k1 < int (length items) then
        (let item = items ! nat k1 in
         if hidden item then hideLeading items nodes (k1 + 1)
         else if type item \<noteq> Separator then Inr (nodes, k1)
         else (case hideNode nodes k1 of
                 Inl e \<Rightarrow> Inl e
               | Inr nodes' \<Rightarrow> hideLeading items nodes' (k1 + 1)))
      else Inr (nodes, k1))"
  by pat_completeness auto
termination
  by (relation "measure (\<lambda>(items, nodes, k1). nat (int (length items) - k1))") auto

declare hideLeading.simps [simp del]

text \<open>The second loop (trailing separators), from \<^verbatim>\<open>k2 = n - 1\<close> downwards.\<close>

function hideTrailing :: "MenuItem list \<Rightarrow> Node list \<Rightarrow> int \<Rightarrow> error + (Node list \<times> int)" where
  "hideTrailing items nodes k2 =
     (if 0 \<le> k2 \<and> k2 < int (length items) then
        (let item = items ! nat k2 in
         if hidden item then hideTrailing items nodes (k2 - 1)
         else if type item \<noteq> Separator then Inr (nodes, k2)
         else (case hideNode nodes k2 of
                 Inl e \<Rightarrow> Inl e
               | Inr nodes' \<Rightarrow> hideTrailing items nodes' (k2 - 1)))
      else Inr (nodes, k2))"
  by pat_completeness auto
termination
  by (relation "measure (\<lambda>(items, nodes, k2). nat (k2 + 1))") auto

declare hideTrailing.simps [simp del]

text \<open>The third loop, \<^verbatim>\<open>while (++k1 < k2)\<close>; the argument \<open>k1\<close> is the value before the
  increment.\<close>

function hideConsecutive ::
  "MenuItem list \<Rightarrow> Node list \<Rightarrow> int \<Rightarrow> int \<Rightarrow> bool \<Rightarrow> error + Node list" where
  "hideConsecutive items nodes k1 k2 hide =
     (if k1 + 1 < k2 then
        (if 0 \<le> k1 + 1 \<and> k1 + 1 < int (length items) then
           (let item = items ! nat (k1 + 1) in
            if hidden item then hideConsecutive items nodes (k1 + 1) k2 hide
            else if type item \<noteq> Separator then hideConsecutive items nodes (k1 + 1) k2 False
            else if hide then
              (case hideNode nodes (k1 + 1) of
                 Inl e \<Rightarrow> Inl e
               | Inr nodes' \<Rightarrow> hideConsecutive items nodes' (k1 + 1) k2 hide)
            else hideConsecutive items nodes (k1 + 1) k2 True)
         else Inl TypeError)
      else Inr nodes)"
  by pat_completeness auto
termination
  by (relation "measure (\<lambda>(items, nodes, k1, k2, hide). nat (k2 - k1))") auto

declare hideConsecutive.simps [simp del]

text \<open>\<^verbatim>\<open>Private.hideExtraSeparators\<close>.\<close>

definition hideExtraSeparators :: "MenuItem list \<Rightarrow> Node list \<Rightarrow> error + Node list" where
  "hideExtraSeparators items nodes =
     (let n = int (length items) in
      case hideLeading items nodes 0 of
        Inl e \<Rightarrow> Inl e
      | Inr (nodes1, k1) \<Rightarrow>
         (case hideTrailing items nodes1 (n - 1) of
            Inl e \<Rightarrow> Inl e
          | Inr (nodes2, k2) \<Rightarrow> hideConsecutive items nodes2 k1 k2 False))"

subsection \<open>Menus and the store\<close>

text \<open>The inline style of the menu node, as far as the positioning code writes it;
  \<open>None\<close> is the empty string, \<open>Some v\<close> is \<open>v\<close> pixels.\<close>

record Style =
  top' :: "real option"
  left :: "real option"
  width :: "real option"
  height :: "real option"
  visibility :: string
  maxHeight :: "real option"

text \<open>The private fields of the class \<^verbatim>\<open>Menu\<close>, and of its base class \<^verbatim>\<open>Widget\<close> the
  two the menu code reads: \<open>parent\<close> (the hosting widget, if any) and \<open>isAttached\<close>.\<close>

record Menu =
  items :: "MenuItem list"
  nodes :: "Node list"
  activeIndex :: int
  childIndex :: int
  openTimerID :: nat
  closeTimerID :: nat
  childMenu :: "ref option"
  parentMenu :: "ref option"
  parent :: "nat option"
  isAttached :: bool
  style :: Style

datatype signal = Triggered MenuItem | Closed

text \<open>The store: the menus by address, the signals emitted so far (sender and signal, in
  order of emission) and the number of timers created so far.\<close>

record state =
  menus :: "Menu list"
  emitted :: "(ref \<times> signal) list"
  timerCount :: nat

text \<open>The state of \<^verbatim>\<open>new Menu()\<close>.\<close>

definition Menu_new :: Menu where
  "Menu_new =
     \<lparr>items = [], nodes = [], activeIndex = -1, childIndex = -1, openTimerID = 0,
      closeTimerID = 0, childMenu = None, parentMenu = None, parent = None,
      isAttached = False,
      style = \<lparr>top' = None, left = None, width = None, height = None,
                visibility = [], maxHeight = None\<rparr>\<rparr>"

definition modify :: "ref \<Rightarrow> (Menu \<Rightarrow> Menu) \<Rightarrow> state \<Rightarrow> state" where
  "modify m f s = s\<lparr>menus := (menus s)[m := f (menus s ! m)]\<rparr>"

definition emit :: "ref \<Rightarrow> signal \<Rightarrow> state \<Rightarrow> state" where
  "emit m sig s = s\<lparr>emitted := emitted s @ [(m, sig)]\<rparr>"

text \<open>An operation on the fields of one menu, run on the store; an address outside the
  store stands for \<^verbatim>\<open>undefined\<close>.\<close>

definition onMenu :: "ref \<Rightarrow> (Menu \<Rightarrow> error + Menu) \<Rightarrow> state \<Rightarrow> error + state" where
  "onMenu m f s =
     (if m < length (menus s) then
        (case f (menus s ! m) of
           Inl e \<Rightarrow> Inl e
         | Inr M \<Rightarrow> Inr (s\<lparr>menus := (menus s)[m := M]\<rparr>))
      else Inl TypeError)"

subsection \<open>Selection\<close>

text \<open>\<^verbatim>\<open>vector.at(i)\<close>: \<^verbatim>\<open>undefined\<close> out of range.\<close>

definition vec_at :: "'a list \<Rightarrow> int \<Rightarrow> 'a option" where
  "vec_at xs i = (if 0 \<le> i \<and> i < int (length xs) then Some (xs ! nat i) else None)"

text \<open>\<^verbatim>\<open>nodes.at(i).classList.remove(ACTIVE_CLASS)\<close> and \<^verbatim>\<open>.add(ACTIVE_CLASS)\<close>.\<close>

definition removeActive :: "Node list \<Rightarrow> int \<Rightarrow> error + Node list" where
  "removeActive ns i =
     (case vec_at ns i of
        None \<Rightarrow> Inl TypeError
      | Some node \<Rightarrow> Inr (ns[nat i := classList_remove ACTIVE_CLASS node]))"

definition addActive :: "Node list \<Rightarrow> int \<Rightarrow> error + Node list" where
  "addActive ns i =
     (case vec_at ns i of
        None \<Rightarrow> Inl TypeError
      | Some node \<Rightarrow> Inr (ns[nat i := classList_add ACTIVE_CLASS node]))"

text \<open>The getter \<^verbatim>\<open>activeItem\<close>; \<open>None\<close> stands for \<^verbatim>\<open>null\<close> and for the
  \<^verbatim>\<open>undefined\<close> of an index out of range, which the callers only test for falsity.\<close>

definition activeItem :: "Menu \<Rightarrow> MenuItem option" where
  "activeItem M = (let i = activeIndex M in if i \<noteq> -1 then vec_at (items M) i else None)"

text \<open>The setter \<^verbatim>\<open>activeIndex\<close>.\<close>

definition setActiveIndex :: "real \<Rightarrow> Menu \<Rightarrow> error + Menu" where
  "setActiveIndex value M =
     (let i = \<lfloor>value\<rfloor>;
          i = (if i < 0 \<or> i \<ge> int (length (items M)) then -1 else i);
          i = (if i \<noteq> -1 \<and> \<not> isSelectable (items M ! nat i) then -1 else i)
      in if activeIndex M = i then Inr M
         else
           (case (if activeIndex M \<noteq> -1 then removeActive (nodes M) (activeIndex M)
                  else Inr (nodes M)) of
              Inl e \<Rightarrow> Inl e
            | Inr ns \<Rightarrow>
               (case (if i \<noteq> -1 then addActive ns i else Inr ns) of
                  Inl e \<Rightarrow> Inl e
                | Inr ns' \<Rightarrow> Inr (M\<lparr>nodes := ns', activeIndex := i\<rparr>))))"

text \<open>\<^verbatim>\<open>indexOf(items, value)\<close>: the first position of the item, or \<open>-1\<close>. Items are
  compared by value here (the library compares object identities).\<close>

fun indexOf :: "'a list \<Rightarrow> 'a \<Rightarrow> int" where
  "indexOf [] v = -1"
| "indexOf (x # xs) v = (if x = v then 0 else (let r = indexOf xs v in if r = -1 then -1 else r + 1))"

text \<open>The setter \<^verbatim>\<open>activeItem\<close>.\<close>

definition setActiveItem :: "MenuItem \<Rightarrow> Menu \<Rightarrow> error + Menu" where
  "setActiveItem v M = setActiveIndex (of_int (indexOf (items M) v)) M"

subsection \<open>Rendering\<close>

text \<open>The loop of \<^verbatim>\<open>onUpdateRequest\<close>, \<open>i\<close> running to \<open>items.length\<close>.\<close>

function updateNodes :: "MenuItem list \<Rightarrow> Node list \<Rightarrow> nat \<Rightarrow> error + Node list" where
  "updateNodes its ns i =
     (if i < length its then
        (case vec_at ns (int i) of
           None \<Rightarrow> Inl TypeError
         | Some node \<Rightarrow> updateNodes its (ns[i := updateItemNode node (its ! i)]) (i + 1))
      else Inr ns)"
  by pat_completeness auto
termination
  by (relation "measure (\<lambda>(its, ns, i). length its - i)") auto

declare updateNodes.simps [simp del]

text \<open>\<^verbatim>\<open>Menu.onUpdateRequest\<close>.\<close>

definition onUpdateRequest :: "Menu \<Rightarrow> error + Menu" where
  "onUpdateRequest M =
     (case updateNodes (items M) (nodes M) 0 of
        Inl e \<Rightarrow> Inl e
      | Inr ns \<Rightarrow>
         (case (if activeIndex M \<noteq> -1 then addActive ns (activeIndex M) else Inr ns) of
            Inl e \<Rightarrow> Inl e
          | Inr ns' \<Rightarrow>
             (case hideExtraSeparators (items M) ns' of
                Inl e \<Rightarrow> Inl e
              | Inr ns'' \<Rightarrow> Inr (M\<lparr>nodes := ns''\<rparr>))))"

subsection \<open>Timers\<close>

text \<open>\<^verbatim>\<open>_cancelOpenTimer\<close> and \<^verbatim>\<open>_cancelCloseTimer\<close>. A timer is pending exactly while
  its identifier is stored in the menu: the source clears the field wherever it clears or
  runs the timer.\<close>

definition cancelOpenTimer :: "Menu \<Rightarrow> Menu" where
  "cancelOpenTimer M = (if openTimerID M \<noteq> 0 then M\<lparr>openTimerID := 0\<rparr> else M)"

definition cancelCloseTimer :: "Menu \<Rightarrow> Menu" where
  "cancelCloseTimer M = (if closeTimerID M \<noteq> 0 then M\<lparr>closeTimerID := 0\<rparr> else M)"

text \<open>\<^verbatim>\<open>_startOpenTimer\<close> and \<^verbatim>\<open>_startCloseTimer\<close>; \<^verbatim>\<open>setTimeout\<close> returns a fresh
  positive identifier.\<close>

definition startOpenTimer :: "ref \<Rightarrow> state \<Rightarrow> state" where
  "startOpenTimer this s =
     (if openTimerID (menus s ! this) = 0
      then (modify this (\<lambda>M. M\<lparr>openTimerID := Suc (timerCount s)\<rparr>) s)
             \<lparr>timerCount := Suc (timerCount s)\<rparr>
      else s)"

definition startCloseTimer :: "ref \<Rightarrow> state \<Rightarrow> state" where
  "startCloseTimer this s =
     (if closeTimerID (menus s ! this) = 0
      then (modify this (\<lambda>M. M\<lparr>closeTimerID := Suc (timerCount s)\<rparr>) s)
             \<lparr>timerCount := Suc (timerCount s)\<rparr>
      else s)"

subsection \<open>Closing\<close>

text \<open>Modelled from the spec: the setter \<^verbatim>\<open>parent\<close> and \<^verbatim>\<open>Widget.detach\<close> belong to
  \<^verbatim>\<open>widget.ts\<close>, which is not part of the source file. By the spec, closing "detaches this
  menu from wherever it was mounted (it may be mounted either as a nested item of a host
  widget or as a top-level overlay)": after \<^verbatim>\<open>this.parent = null\<close> the menu has no parent
  and is not attached, after \<^verbatim>\<open>Widget.detach(this)\<close> it is not attached.\<close>

definition unparent :: "Menu \<Rightarrow> Menu" where
  "unparent M = M\<lparr>parent := None, isAttached := False\<rparr>"

definition detach :: "Menu \<Rightarrow> Menu" where
  "detach M = M\<lparr>isAttached := False\<rparr>"

text \<open>Modelled from the spec: \<^verbatim>\<open>Widget.attach(menu, document.body)\<close>, also of
  \<^verbatim>\<open>widget.ts\<close>, mounts the menu as a top-level overlay: afterwards it is attached.\<close>

definition attach :: "Menu \<Rightarrow> Menu" where
  "attach M = M\<lparr>isAttached := True\<rparr>"

text \<open>The first part of \<^verbatim>\<open>onCloseRequest\<close>: the timers are cancelled and the selection is
  reset through the setter.\<close>

definition closeHead :: "Menu \<Rightarrow> error + Menu" where
  "closeHead M = setActiveIndex (-1) (cancelCloseTimer (cancelOpenTimer M))"

text \<open>The last part of \<^verbatim>\<open>onCloseRequest\<close>, after the child menu has been closed: the menu
  is removed from its parent menu, then unmounted, and \<^verbatim>\<open>closed\<close> is emitted.\<close>

definition closeTail :: "ref \<Rightarrow> state \<Rightarrow> state" where
  "closeTail this s =
     (let s = (case parentMenu (menus s ! this) of
                 None \<Rightarrow> s
               | Some p \<Rightarrow>
                   modify p
                     (\<lambda>P. (cancelCloseTimer (cancelOpenTimer P))\<lparr>childIndex := -1, childMenu := None\<rparr>)
                     (modify this (\<lambda>M. M\<lparr>parentMenu := None\<rparr>) s))
      in if parent (menus s ! this) \<noteq> None then emit this Closed (modify this unparent s)
         else if isAttached (menus s ! this) then emit this Closed (modify this detach s)
         else s)"

text \<open>The number of menus of the store with an open child: it decreases at each nested
  \<^verbatim>\<open>close()\<close>, since the link to the child is cleared before the child is closed.\<close>

definition openLinks :: "state \<Rightarrow> nat" where
  "openLinks s = length (filter (\<lambda>M. childMenu M \<noteq> None) (menus s))"

lemma filter_update_less:
  "i < length xs \<Longrightarrow> P (xs ! i) \<Longrightarrow> \<not> P y \<Longrightarrow>
   length (filter P (xs[i := y])) < length (filter P xs)"
proof (induction xs arbitrary: i)
  case Nil
  then show ?case by simp
next
  case (Cons x xs)
  show ?case
  proof (cases i)
    case 0
    with Cons.prems show ?thesis by simp
  next
    case (Suc j)
    with Cons.prems have "length (filter P (xs[j := y])) < length (filter P xs)"
      by (intro Cons.IH) simp_all
    with Suc show ?thesis by simp
  qed
qed

lemma filter_update_same:
  "i < length xs \<Longrightarrow> P y = P (xs ! i) \<Longrightarrow>
   length (filter P (xs[i := y])) = length (filter P xs)"
proof (induction xs arbitrary: i)
  case Nil
  then show ?case by simp
next
  case (Cons x xs)
  then show ?case by (cases i) simp_all
qed

lemma filter_update_same':
  assumes "P y = P (xs ! i)"
  shows "length (filter P (xs[i := y])) = length (filter P xs)"
proof (cases "i < length xs")
  case True
  then show ?thesis using assms by (rule filter_update_same)
next
  case False
  then have "xs[i := y] = xs" by (simp add: list_update_beyond)
  then show ?thesis by simp
qed

lemma setActiveIndex_childMenu:
  "setActiveIndex v M = Inr M' \<Longrightarrow> childMenu M' = childMenu M"
  by (auto simp: setActiveIndex_def Let_def split: if_splits sum.splits)

lemma closeHead_childMenu:
  "closeHead M = Inr M' \<Longrightarrow> childMenu M' = childMenu M"
  by (auto simp: closeHead_def cancelOpenTimer_def cancelCloseTimer_def
      dest!: setActiveIndex_childMenu)

lemma openLinks_unlink:
  assumes "this < length (menus s)" "closeHead (menus s ! this) = Inr M"
    and "childMenu M = Some c"
  shows "openLinks (modify c (\<lambda>C. C\<lparr>parentMenu := None\<rparr>)
           (s\<lparr>menus := (menus s)[this := M\<lparr>childIndex := -1, childMenu := None\<rparr>]\<rparr>))
         < openLinks s"
proof -
  have "childMenu (menus s ! this) = Some c"
    using closeHead_childMenu [OF assms(2)] assms(3) by (rule subst)
  then have "childMenu (menus s ! this) \<noteq> None"
    by simp
  then have "length (filter (\<lambda>M. childMenu M \<noteq> None)
       ((menus s)[this := M\<lparr>childIndex := -1, childMenu := None\<rparr>]))
     < length (filter (\<lambda>M. childMenu M \<noteq> None) (menus s))"
    using assms(1) by (intro filter_update_less) simp_all
  then show ?thesis
    by (simp add: openLinks_def modify_def filter_update_same')
qed

text \<open>\<^verbatim>\<open>Menu.onCloseRequest\<close>.\<close>

function onCloseRequest :: "state \<Rightarrow> ref \<Rightarrow> error + state" where
  "onCloseRequest s this =
     (if this < length (menus s) then
        (case closeHead (menus s ! this) of
           Inl e \<Rightarrow> Inl e
         | Inr M \<Rightarrow>
            (case (case childMenu M of
                     None \<Rightarrow> Inr (s\<lparr>menus := (menus s)[this := M]\<rparr>)
                   | Some c \<Rightarrow>
                       onCloseRequest
                         (modify c (\<lambda>C. C\<lparr>parentMenu := None\<rparr>)
                            (s\<lparr>menus := (menus s)[this := M\<lparr>childIndex := -1, childMenu := None\<rparr>]\<rparr>))
                         c) of
               Inl e \<Rightarrow> Inl e
             | Inr s' \<Rightarrow> Inr (closeTail this s')))
      else Inl TypeError)"
  by pat_completeness auto
termination
  by (relation "measure (\<lambda>(s, this). openLinks s)") (auto intro: openLinks_unlink)

declare onCloseRequest.simps [simp del]

text \<open>Modelled from the spec: \<^verbatim>\<open>Widget.close\<close> belongs to \<^verbatim>\<open>widget.ts\<close>; by the spec an
  explicit close runs the close routine of the menu, \<^verbatim>\<open>onCloseRequest\<close>, at once.\<close>

definition close :: "ref \<Rightarrow> state \<Rightarrow> error + state" where
  "close this s = onCloseRequest s this"

subsection \<open>Positioning\<close>

text \<open>What the browser reports while a menu is opened or an event is handled: the scroll
  offset and size of the viewport, the measurements of the menu node being placed (its
  scroll height, offset width and client width, and its bounding rectangle once mounted),
  its box sizing, the bounding rectangle of the item node a submenu is placed at, and the
  results of \<^verbatim>\<open>hitTest\<close> on the item node \<open>i\<close> of a menu and on the node of a menu.\<close>

record Dom =
  pageXOffset :: real
  pageYOffset :: real
  clientWidth :: real
  clientHeight :: real
  scrollHeight :: real
  offsetWidth :: real
  nodeClientWidth :: real
  rectWidth :: real
  rectHeight :: real
  borderTop :: real
  paddingTop :: real
  borderBottom :: real
  paddingBottom :: real
  itemLeft :: real
  itemRight :: real
  itemTop :: real
  itemBottom :: real
  hitTestItem :: "ref \<Rightarrow> nat \<Rightarrow> real \<Rightarrow> real \<Rightarrow> bool"
  hitTestMenu :: "ref \<Rightarrow> real \<Rightarrow> real \<Rightarrow> bool"

text \<open>The two adjustments of \<^verbatim>\<open>Private.openRootMenu\<close>: the value of \<^verbatim>\<open>x\<close> after
  "Adjust the X position of the menu to fit on-screen" and of \<^verbatim>\<open>y\<close> after "Adjust the Y
  position of the menu to fit on-screen".\<close>

definition adjustX :: "bool \<Rightarrow> real \<Rightarrow> real \<Rightarrow> real \<Rightarrow> real \<Rightarrow> real" where
  "adjustX forceX x w px cw = (if \<not> forceX \<and> x + w > px + cw then px + cw - w else x)"

definition adjustY :: "bool \<Rightarrow> real \<Rightarrow> real \<Rightarrow> real \<Rightarrow> real \<Rightarrow> real" where
  "adjustY forceY y h py ch =
     (if \<not> forceY \<and> y + h > py + ch then (if y > py + ch then py + ch - h else y - h)
      else y)"

text \<open>\<^verbatim>\<open>Private.openRootMenu\<close>.\<close>

definition openRootMenu :: "Dom \<Rightarrow> real \<Rightarrow> real \<Rightarrow> bool \<Rightarrow> bool \<Rightarrow> Menu \<Rightarrow> error + Menu" where
  "openRootMenu env x y forceX forceY menu =
     (case onUpdateRequest menu of
        Inl e \<Rightarrow> Inl e
      | Inr M \<Rightarrow>
         (let px = pageXOffset env; py = pageYOffset env;
              cw = clientWidth env; ch = clientHeight env;
              maxH = ch - (if forceY then y else 0);
              M = M\<lparr>style := \<lparr>top' = None, left = None, width = None, height = None,
                               visibility = ''hidden'', maxHeight = Some maxH\<rparr>\<rparr>;
              M = attach M;
              M = (if scrollHeight env > maxH
                   then M\<lparr>style := (style M)\<lparr>width := Some (2 * offsetWidth env - nodeClientWidth env)\<rparr>\<rparr>
                   else M);
              w = rectWidth env; h = rectHeight env;
              x = adjustX forceX x w px cw;
              y = adjustY forceY y h py ch;
              M = M\<lparr>style := (style M)\<lparr>top' := Some (max 0 y), left := Some (max 0 x)\<rparr>\<rparr>
          in Inr (M\<lparr>style := (style M)\<lparr>visibility := []\<rparr>\<rparr>)))"

text \<open>\<^verbatim>\<open>Private.openSubmenu\<close>; \<open>itemNode\<close> is \<open>None\<close> for \<^verbatim>\<open>undefined\<close>, whose
  \<^verbatim>\<open>getBoundingClientRect\<close> raises.\<close>

definition openSubmenu :: "Dom \<Rightarrow> Node option \<Rightarrow> Menu \<Rightarrow> error + Menu" where
  "openSubmenu env itemNode menu =
     (case onUpdateRequest menu of
        Inl e \<Rightarrow> Inl e
      | Inr M \<Rightarrow>
         (let px = pageXOffset env; py = pageYOffset env;
              cw = clientWidth env; ch = clientHeight env;
              maxH = ch;
              M = M\<lparr>style := \<lparr>top' = None, left = None, width = None, height = None,
                               visibility = ''hidden'', maxHeight = Some maxH\<rparr>\<rparr>;
              M = attach M;
              M = (if scrollHeight env > maxH
                   then M\<lparr>style := (style M)\<lparr>width := Some (2 * offsetWidth env - nodeClientWidth env)\<rparr>\<rparr>
                   else M);
              w = rectWidth env; h = rectHeight env
          in case itemNode of
               None \<Rightarrow> Inl TypeError
             | Some node \<Rightarrow>
                (let x = itemRight env - SUBMENU_OVERLAP;
                     x = (if x + w > px + cw then itemLeft env + SUBMENU_OVERLAP - w else x);
                     y = itemTop env - borderTop env - paddingTop env;
                     y = (if y + h > py + ch
                          then itemBottom env + borderBottom env + paddingBottom env - h else y);
                     M = M\<lparr>style := (style M)\<lparr>top' := Some (max 0 y), left := Some (max 0 x)\<rparr>\<rparr>
                 in Inr (M\<lparr>style := (style M)\<lparr>visibility := []\<rparr>\<rparr>))))"

text \<open>The options of \<^verbatim>\<open>open\<close>; \<open>None\<close> is an absent field.\<close>

record OpenOptions =
  forceX :: "bool option"
  forceY :: "bool option"

text \<open>\<^verbatim>\<open>Menu.open\<close>.\<close>

definition open' :: "Dom \<Rightarrow> real \<Rightarrow> real \<Rightarrow> OpenOptions \<Rightarrow> Menu \<Rightarrow> error + Menu" where
  "open' env x y options M =
     (if isAttached M then Inr M
      else
        (let fX = (case forceX options of Some b \<Rightarrow> b | None \<Rightarrow> False);
             fY = (case forceY options of Some b \<Rightarrow> b | None \<Rightarrow> False)
         in openRootMenu env x y fX fY M))"

subsection \<open>Child menus\<close>

text \<open>\<^verbatim>\<open>Menu._closeChildMenu\<close>.\<close>

definition closeChildMenu :: "ref \<Rightarrow> state \<Rightarrow> error + state" where
  "closeChildMenu this s =
     (case childMenu (menus s ! this) of
        None \<Rightarrow> Inr s
      | Some child \<Rightarrow>
          close child
            (modify child (\<lambda>C. C\<lparr>parentMenu := None\<rparr>)
               (modify this (\<lambda>M. M\<lparr>childIndex := -1, childMenu := None\<rparr>) s)))"

text \<open>Modelled from the spec: the accessor \<^verbatim>\<open>activeItemNode\<close> that \<^verbatim>\<open>_openChildMenu\<close>
  reads is not declared in the source file. By the spec the submenu is placed "relative to
  the active item's node": the node at the active index.\<close>

definition activeItemNode :: "Menu \<Rightarrow> Node option" where
  "activeItemNode M = vec_at (nodes M) (activeIndex M)"

text \<open>\<^verbatim>\<open>Menu._openChildMenu\<close>.\<close>

definition openChildMenu :: "Dom \<Rightarrow> ref \<Rightarrow> state \<Rightarrow> error + state" where
  "openChildMenu env this s =
     (case activeItem (menus s ! this) of
        None \<Rightarrow> closeChildMenu this s
      | Some item \<Rightarrow>
         (if type item \<noteq> Submenu \<or> submenu item = None then closeChildMenu this s
          else if submenu item = childMenu (menus s ! this) then Inr s
          else
            (case closeChildMenu this s of
               Inl e \<Rightarrow> Inl e
             | Inr s \<Rightarrow>
                (let menu = the (submenu item);
                     s = modify this
                           (\<lambda>M. M\<lparr>childMenu := Some menu, childIndex := activeIndex M\<rparr>) s;
                     s = modify menu (\<lambda>C. C\<lparr>parentMenu := Some this\<rparr>) s
                 in onMenu menu (openSubmenu env (activeItemNode (menus s ! this))) s))))"

subsection \<open>Triggering\<close>

text \<open>The loop of \<^verbatim>\<open>Menu._triggerItem\<close>: \<^verbatim>\<open>triggered\<close> is emitted on \<open>menu\<close> and on each
  menu reached through \<^verbatim>\<open>_parentMenu\<close>; the result is the store and \<^verbatim>\<open>root\<close>. The loop
  does not end when the parent pointers form a cycle: the value is then \<open>None\<close>.\<close>

partial_function (option) triggerLoop ::
  "state \<Rightarrow> ref \<Rightarrow> MenuItem \<Rightarrow> (error + state \<times> ref) option" where
  "triggerLoop s menu item =
     (if menu < length (menus s) then
        (case parentMenu (menus s ! menu) of
           None \<Rightarrow> Some (Inr (emit menu (Triggered item) s, menu))
         | Some p \<Rightarrow> triggerLoop (emit menu (Triggered item) s) p item)
      else Some (Inl TypeError))"

declare triggerLoop.simps [code]

text \<open>\<^verbatim>\<open>Menu._triggerItem\<close>.\<close>

definition triggerItem :: "ref \<Rightarrow> MenuItem \<Rightarrow> state \<Rightarrow> (error + state) option" where
  "triggerItem this item s =
     (case triggerLoop s this item of
        None \<Rightarrow> None
      | Some (Inl e) \<Rightarrow> Some (Inl e)
      | Some (Inr (s', top_menu)) \<Rightarrow> Some (close top_menu s'))"

subsection \<open>Keyboard activation\<close>

text \<open>The loop of \<^verbatim>\<open>Private.activateFirstSelectable\<close> from \<open>i\<close> on, and the function.\<close>

function firstSelectableLoop :: "Menu \<Rightarrow> nat \<Rightarrow> error + Menu" where
  "firstSelectableLoop M i =
     (if i < length (items M) then
        (if isSelectable (items M ! i) then setActiveIndex (of_nat i) M
         else firstSelectableLoop M (i + 1))
      else setActiveIndex (-1) M)"
  by pat_completeness auto
termination
  by (relation "measure (\<lambda>(M, i). length (items M) - i)") auto

declare firstSelectableLoop.simps [simp del]

definition activateFirstSelectable :: "Menu \<Rightarrow> error + Menu" where
  "activateFirstSelectable M = firstSelectableLoop M 0"

text \<open>The remainder operator \<^verbatim>\<open>%\<close> of JavaScript on integers: the sign is the sign of the
  dividend.\<close>

definition js_rem :: "int \<Rightarrow> int \<Rightarrow> int" where
  "js_rem a n = (if a < 0 then - ((- a) mod n) else a mod n)"

text \<open>\<^verbatim>\<open>Private.activateNextSelectable\<close>; \<^verbatim>\<open>items.at(k)\<close> is \<^verbatim>\<open>undefined\<close> for a
  negative \<open>k\<close>, and \<^verbatim>\<open>isSelectable\<close> then raises.\<close>

function nextSelectableLoop :: "Menu \<Rightarrow> int \<Rightarrow> nat \<Rightarrow> error + Menu" where
  "nextSelectableLoop M j i =
     (if i < length (items M) then
        (let k = js_rem (int i + j) (int (length (items M))) in
         case vec_at (items M) k of
           None \<Rightarrow> Inl TypeError
         | Some item \<Rightarrow>
             if isSelectable item then setActiveIndex (of_int k) M
             else nextSelectableLoop M j (i + 1))
      else setActiveIndex (-1) M)"
  by pat_completeness auto
termination
  by (relation "measure (\<lambda>(M, j, i). length (items M) - i)") auto

declare nextSelectableLoop.simps [simp del]

definition activateNextSelectable :: "Menu \<Rightarrow> error + Menu" where
  "activateNextSelectable M = nextSelectableLoop M (activeIndex M + 1) 0"

text \<open>\<^verbatim>\<open>Private.activatePrevSelectable\<close>.\<close>

function prevSelectableLoop :: "Menu \<Rightarrow> int \<Rightarrow> nat \<Rightarrow> error + Menu" where
  "prevSelectableLoop M j i =
     (if i < length (items M) then
        (let k = js_rem (j - int i + int (length (items M))) (int (length (items M))) in
         case vec_at (items M) k of
           None \<Rightarrow> Inl TypeError
         | Some item \<Rightarrow>
             if isSelectable item then setActiveIndex (of_int k) M
             else prevSelectableLoop M j (i + 1))
      else setActiveIndex (-1) M)"
  by pat_completeness auto
termination
  by (relation "measure (\<lambda>(M, j, i). length (items M) - i)") auto

declare prevSelectableLoop.simps [simp del]

definition activatePrevSelectable :: "Menu \<Rightarrow> error + Menu" where
  "activatePrevSelectable M =
     (let ai = activeIndex M;
          j = (if ai \<le> 0 then int (length (items M)) - 1 else ai - 1)
      in prevSelectableLoop M j 0)"

text \<open>The class \<^verbatim>\<open>\w\<close> of a regular expression, and \<^verbatim>\<open>toUpperCase\<close> on one character. The
  characters of the model are the code units below 256; \<^verbatim>\<open>toUpperCase\<close> is only ever
  compared with the upper case of a word character, which no character from 128 to 255 has
  as its upper case, so these are left as they are.\<close>

definition lowerCaseLetters :: string where
  "lowerCaseLetters = ''abcdefghijklmnopqrstuvwxyz''"

definition upperCaseLetters :: string where
  "upperCaseLetters = ''ABCDEFGHIJKLMNOPQRSTUVWXYZ''"

definition isWordChar :: "char \<Rightarrow> bool" where
  "isWordChar c \<longleftrightarrow> c \<in> set (lowerCaseLetters @ upperCaseLetters @ ''0123456789_'')"

definition toUpperCase :: "char \<Rightarrow> char" where
  "toUpperCase c =
     (case map_of (zip lowerCaseLetters upperCaseLetters) c of Some u \<Rightarrow> u | None \<Rightarrow> c)"

text \<open>\<^verbatim>\<open>text.match(/&&\w/)\<close>: the leftmost occurrence of the marker followed by a word
  character (the three characters \<^verbatim>\<open>match[0]\<close>), or \<open>None\<close> for \<^verbatim>\<open>null\<close>.\<close>

fun matchMnemonic :: "string \<Rightarrow> string option" where
  "matchMnemonic (a # b # c # cs) =
     (if a = CHR ''&'' \<and> b = CHR ''&'' \<and> isWordChar c then Some [a, b, c]
      else matchMnemonic (b # c # cs))"
| "matchMnemonic cs = None"

text \<open>\<^verbatim>\<open>Private.activateNextMnemonic\<close>: the loop from \<open>i\<close> on, \<open>c\<close> being the upper case of
  the typed character, and the function.\<close>

function nextMnemonicLoop :: "Menu \<Rightarrow> char \<Rightarrow> int \<Rightarrow> nat \<Rightarrow> error + Menu" where
  "nextMnemonicLoop M c j i =
     (if i < length (items M) then
        (let k = js_rem (int i + j) (int (length (items M))) in
         case vec_at (items M) k of
           None \<Rightarrow> Inl TypeError
         | Some item \<Rightarrow>
             if \<not> isSelectable item then nextMnemonicLoop M c j (i + 1)
             else
               (case matchMnemonic (text' item) of
                  None \<Rightarrow> nextMnemonicLoop M c j (i + 1)
                | Some m \<Rightarrow>
                    if toUpperCase (m ! 2) \<noteq> c then nextMnemonicLoop M c j (i + 1)
                    else setActiveIndex (of_int k) M))
      else setActiveIndex (-1) M)"
  by pat_completeness auto
termination
  by (relation "measure (\<lambda>(M, c, j, i). length (items M) - i)") auto

declare nextMnemonicLoop.simps [simp del]

definition activateNextMnemonic :: "Menu \<Rightarrow> char \<Rightarrow> error + Menu" where
  "activateNextMnemonic M char = nextMnemonicLoop M (toUpperCase char) (activeIndex M + 1) 0"

subsection \<open>Events\<close>

text \<open>The fields of a mouse event and of a keyboard event that the handlers read;
  \<open>charCode\<close> is the character \<^verbatim>\<open>String.fromCharCode(event.charCode)\<close>. The effects of
  \<^verbatim>\<open>preventDefault\<close> and \<^verbatim>\<open>stopPropagation\<close> are effects on the event, not on a menu,
  and are left out.\<close>

record MouseEvent =
  button :: int
  clientX :: real
  clientY :: real

record KeyboardEvent =
  keyCode :: int
  charCode :: char

datatype Event =
    MouseUp MouseEvent
  | MouseMove MouseEvent
  | MouseLeave MouseEvent
  | ContextMenu
  | KeyDown KeyboardEvent
  | KeyPress KeyboardEvent
  | MouseDown MouseEvent
  | OtherEvent

text \<open>\<^verbatim>\<open>findIndex(nodes, node => hitTest(node, x, y))\<close>: the first position whose node is
  hit, or \<open>-1\<close>. Whether a node is hit depends on its place in the document, so the
  predicate is given the position.\<close>

definition findIndex :: "'a list \<Rightarrow> (nat \<Rightarrow> bool) \<Rightarrow> int" where
  "findIndex xs P = (case filter P [0..<length xs] of [] \<Rightarrow> -1 | i # _ \<Rightarrow> int i)"

definition cancelTimers :: "Menu \<Rightarrow> Menu" where
  "cancelTimers M = cancelCloseTimer (cancelOpenTimer M)"

text \<open>\<^verbatim>\<open>Menu._evtMouseUp\<close>.\<close>

definition evtMouseUp :: "Dom \<Rightarrow> ref \<Rightarrow> MouseEvent \<Rightarrow> state \<Rightarrow> (error + state) option" where
  "evtMouseUp env this event s =
     (if button event \<noteq> 0 then Some (Inr s)
      else
        (let x = clientX event; y = clientY event;
             i = findIndex (nodes (menus s ! this)) (\<lambda>k. hitTestItem env this k x y)
         in case onMenu this (setActiveIndex (of_int i)) s of
              Inl e \<Rightarrow> Some (Inl e)
            | Inr s \<Rightarrow>
               (case activeItem (menus s ! this) of
                  None \<Rightarrow> Some (Inr s)
                | Some item \<Rightarrow>
                   (let s = modify this cancelTimers s
                    in if type item = Submenu then Some (openChildMenu env this s)
                       else triggerItem this item s))))"

text \<open>The loop of \<^verbatim>\<open>Menu._evtMouseMove\<close> over the ancestors ("Synchronize the active
  ancestor items"), from \<open>menu\<close> on; it does not end when the parent pointers form a
  cycle.\<close>

partial_function (option) syncAncestors :: "state \<Rightarrow> ref option \<Rightarrow> (error + state) option" where
  "syncAncestors s menu =
     (case menu of
        None \<Rightarrow> Some (Inr s)
      | Some m \<Rightarrow>
         (case onMenu m (\<lambda>M. setActiveIndex (of_int (childIndex M)) (cancelTimers M)) s of
            Inl e \<Rightarrow> Some (Inl e)
          | Inr s' \<Rightarrow> syncAncestors s' (parentMenu (menus s' ! m))))"

declare syncAncestors.simps [code]

text \<open>\<^verbatim>\<open>Menu._evtMouseMove\<close>.\<close>

definition evtMouseMove :: "Dom \<Rightarrow> ref \<Rightarrow> MouseEvent \<Rightarrow> state \<Rightarrow> (error + state) option" where
  "evtMouseMove env this event s =
     (let x = clientX event; y = clientY event;
          i = findIndex (nodes (menus s ! this)) (\<lambda>k. hitTestItem env this k x y)
      in if i = activeIndex (menus s ! this) then Some (Inr s)
         else
           (case onMenu this (setActiveIndex (of_int i)) s of
              Inl e \<Rightarrow> Some (Inl e)
            | Inr s \<Rightarrow>
               (let i = activeIndex (menus s ! this) in
                case syncAncestors s (parentMenu (menus s ! this)) of
                  None \<Rightarrow> None
                | Some (Inl e) \<Rightarrow> Some (Inl e)
                | Some (Inr s) \<Rightarrow>
                   (if i = childIndex (menus s ! this) then Some (Inr (modify this cancelTimers s))
                    else
                      (let s = (if childIndex (menus s ! this) \<noteq> -1 then startCloseTimer this s
                                else s);
                           s = modify this cancelOpenTimer s
                       in case activeItem (menus s ! this) of
                            None \<Rightarrow> Some (Inr s)
                          | Some item \<Rightarrow>
                              if type item \<noteq> Submenu \<or> submenu item = None then Some (Inr s)
                              else Some (Inr (startOpenTimer this s)))))))"

text \<open>\<^verbatim>\<open>Menu._evtMouseLeave\<close>.\<close>

definition evtMouseLeave :: "Dom \<Rightarrow> ref \<Rightarrow> MouseEvent \<Rightarrow> state \<Rightarrow> error + state" where
  "evtMouseLeave env this event s =
     (let s = modify this cancelOpenTimer s in
      case childMenu (menus s ! this) of
        None \<Rightarrow> onMenu this (setActiveIndex (-1)) s
      | Some c \<Rightarrow>
          if hitTestMenu env c (clientX event) (clientY event)
          then Inr (modify this cancelCloseTimer s)
          else
            (case onMenu this (setActiveIndex (-1)) s of
               Inl e \<Rightarrow> Inl e
             | Inr s \<Rightarrow> Inr (startCloseTimer this s)))"

text \<open>\<^verbatim>\<open>Menu._evtKeyDown\<close>.\<close>

definition evtKeyDown :: "Dom \<Rightarrow> ref \<Rightarrow> KeyboardEvent \<Rightarrow> state \<Rightarrow> (error + state) option" where
  "evtKeyDown env this event s =
     (if childMenu (menus s ! this) \<noteq> None then Some (Inr s)
      else
        (let kc = keyCode event in
         if kc = 13 then
           (case activeItem (menus s ! this) of
              None \<Rightarrow> Some (Inr s)
            | Some item \<Rightarrow>
               (let s = modify this cancelTimers s in
                if type item \<noteq> Submenu then triggerItem this item s
                else
                  (case openChildMenu env this s of
                     Inl e \<Rightarrow> Some (Inl e)
                   | Inr s \<Rightarrow>
                      (case childMenu (menus s ! this) of
                         None \<Rightarrow> Some (Inr s)
                       | Some c \<Rightarrow> Some (onMenu c activateFirstSelectable s)))))
         else if kc = 27 then Some (close this s)
         else if kc = 37 then
           (if parentMenu (menus s ! this) \<noteq> None then Some (close this s) else Some (Inr s))
         else if kc = 38 then Some (onMenu this activatePrevSelectable s)
         else if kc = 39 then
           (case activeItem (menus s ! this) of
              None \<Rightarrow> Some (Inr s)
            | Some item \<Rightarrow>
               if type item \<noteq> Submenu then Some (Inr s)
               else
                 (let s = modify this cancelTimers s in
                  case openChildMenu env this s of
                    Inl e \<Rightarrow> Some (Inl e)
                  | Inr s \<Rightarrow>
                     (case childMenu (menus s ! this) of
                        None \<Rightarrow> Some (Inr s)
                      | Some c \<Rightarrow> Some (onMenu c activateFirstSelectable s))))
         else if kc = 40 then Some (onMenu this activateNextSelectable s)
         else Some (Inr s)))"

text \<open>\<^verbatim>\<open>Menu._evtKeyPress\<close>.\<close>

definition evtKeyPress :: "ref \<Rightarrow> KeyboardEvent \<Rightarrow> state \<Rightarrow> error + state" where
  "evtKeyPress this event s =
     (if childMenu (menus s ! this) \<noteq> None then Inr s
      else onMenu this (\<lambda>M. activateNextMnemonic M (charCode event)) s)"

text \<open>The loop of \<^verbatim>\<open>Menu._evtMouseDown\<close> over the hierarchy, from \<open>menu\<close> down through
  \<^verbatim>\<open>_childMenu\<close>: whether the press is over one of the menus. It does not end when the
  child pointers form a cycle and no menu is hit.\<close>

partial_function (option) hitHierarchy ::
  "Dom \<Rightarrow> state \<Rightarrow> ref option \<Rightarrow> real \<Rightarrow> real \<Rightarrow> (error + bool) option" where
  "hitHierarchy env s menu x y =
     (case menu of
        None \<Rightarrow> Some (Inr False)
      | Some m \<Rightarrow>
         (if m < length (menus s) then
            (if hitTestMenu env m x y then Some (Inr True)
             else hitHierarchy env s (childMenu (menus s ! m)) x y)
          else Some (Inl TypeError)))"

declare hitHierarchy.simps [code]

text \<open>\<^verbatim>\<open>Menu._evtMouseDown\<close>.\<close>

definition evtMouseDown :: "Dom \<Rightarrow> ref \<Rightarrow> MouseEvent \<Rightarrow> state \<Rightarrow> (error + state) option" where
  "evtMouseDown env this event s =
     (if parentMenu (menus s ! this) \<noteq> None then Some (Inr s)
      else
        (case hitHierarchy env s (Some this) (clientX event) (clientY event) of
           None \<Rightarrow> None
         | Some (Inl e) \<Rightarrow> Some (Inl e)
         | Some (Inr True) \<Rightarrow> Some (Inr s)
         | Some (Inr False) \<Rightarrow> Some (close this s)))"

text \<open>\<^verbatim>\<open>Menu.handleEvent\<close>; a method called on an address outside the store raises.\<close>

definition handleEvent :: "Dom \<Rightarrow> ref \<Rightarrow> Event \<Rightarrow> state \<Rightarrow> (error + state) option" where
  "handleEvent env this event s =
     (if this < length (menus s) then
        (case event of
           MouseUp e \<Rightarrow> evtMouseUp env this e s
         | MouseMove e \<Rightarrow> evtMouseMove env this e s
         | MouseLeave e \<Rightarrow> Some (evtMouseLeave env this e s)
         | ContextMenu \<Rightarrow> Some (Inr s)
         | KeyDown e \<Rightarrow> evtKeyDown env this e s
         | KeyPress e \<Rightarrow> Some (evtKeyPress this e s)
         | MouseDown e \<Rightarrow> evtMouseDown env this e s
         | OtherEvent \<Rightarrow> Some (Inr s))
      else Some (Inl TypeError))"

subsection \<open>Items\<close>

text \<open>\<^verbatim>\<open>Vector.insert\<close> and \<^verbatim>\<open>Vector.remove\<close> of the library \<^verbatim>\<open>phosphor-core\<close>: the
  index of an insertion is clamped to the bounds of the vector, a removal out of range
  changes nothing.\<close>

definition vec_insert :: "'a list \<Rightarrow> int \<Rightarrow> 'a \<Rightarrow> 'a list" where
  "vec_insert xs i x =
     (let k = nat (max 0 (min i (int (length xs)))) in take k xs @ [x] @ drop k xs)"

definition vec_remove :: "'a list \<Rightarrow> int \<Rightarrow> 'a list" where
  "vec_remove xs i =
     (if 0 \<le> i \<and> i < int (length xs) then take (nat i) xs @ drop (Suc (nat i)) xs else xs)"

definition closeIfAttached :: "ref \<Rightarrow> state \<Rightarrow> error + state" where
  "closeIfAttached this s = (if isAttached (menus s ! this) then close this s else Inr s)"

text \<open>\<^verbatim>\<open>Menu.insertItem\<close>, given a menu item. The children of the content node are the
  item nodes, in the order of \<open>nodes\<close>.\<close>

definition insertItem :: "ref \<Rightarrow> real \<Rightarrow> MenuItem \<Rightarrow> state \<Rightarrow> error + state" where
  "insertItem this index item s =
     (if this < length (menus s) then
        (case closeIfAttached this s of
           Inl e \<Rightarrow> Inl e
         | Inr s \<Rightarrow>
            Inr (modify this
              (\<lambda>M. let M = M\<lparr>activeIndex := -1\<rparr>;
                       i = max 0 (min \<lfloor>index\<rfloor> (int (length (items M))));
                       node = createItemNode
                   in M\<lparr>items := vec_insert (items M) i item,
                        nodes := vec_insert (nodes M) i node\<rparr>) s))
      else Inl TypeError)"

text \<open>\<^verbatim>\<open>Menu.addItem\<close>.\<close>

definition addItem :: "ref \<Rightarrow> MenuItem \<Rightarrow> state \<Rightarrow> error + state" where
  "addItem this item s = insertItem this (of_nat (length (items (menus s ! this)))) item s"

text \<open>\<^verbatim>\<open>Menu.removeItem\<close>; \<^verbatim>\<open>removeChild\<close> raises when the node looked up is
  \<^verbatim>\<open>undefined\<close>.\<close>

definition removeItem :: "ref \<Rightarrow> real \<Rightarrow> state \<Rightarrow> error + state" where
  "removeItem this index s =
     (if this < length (menus s) then
        (let i = \<lfloor>index\<rfloor> in
         if i < 0 \<or> i \<ge> int (length (items (menus s ! this))) then Inr s
         else
           (case closeIfAttached this s of
              Inl e \<Rightarrow> Inl e
            | Inr s \<Rightarrow>
               (let s = modify this (\<lambda>M. M\<lparr>activeIndex := -1\<rparr>) s in
                case vec_at (nodes (menus s ! this)) i of
                  None \<Rightarrow> Inl TypeError
                | Some node \<Rightarrow>
                    Inr (modify this
                      (\<lambda>M. M\<lparr>items := vec_remove (items M) i,
                              nodes := vec_remove (nodes M) i\<rparr>) s))))
      else Inl TypeError)"

text \<open>\<^verbatim>\<open>Menu.clearItems\<close>.\<close>

definition clearItems :: "ref \<Rightarrow> state \<Rightarrow> error + state" where
  "clearItems this s =
     (if this < length (menus s) then
        (case closeIfAttached this s of
           Inl e \<Rightarrow> Inl e
         | Inr s \<Rightarrow> Inr (modify this (\<lambda>M. M\<lparr>activeIndex := -1, items := [], nodes := []\<rparr>) s))
      else Inl TypeError)"

text \<open>\<^verbatim>\<open>Menu.dispose\<close>, as far as the fields of the model go (the renderer and the part of
  the base class are left out).\<close>

definition dispose :: "ref \<Rightarrow> state \<Rightarrow> error + state" where
  "dispose this s =
     (case close this s of
        Inl e \<Rightarrow> Inl e
      | Inr s \<Rightarrow> Inr (modify this (\<lambda>M. M\<lparr>items := [], nodes := []\<rparr>) s))"

subsection \<open>Timer callbacks and the operations of a menu\<close>

text \<open>The callbacks given to \<^verbatim>\<open>setTimeout\<close> in \<^verbatim>\<open>_startOpenTimer\<close> and
  \<^verbatim>\<open>_startCloseTimer\<close>; a callback runs only while its timer is pending.\<close>

definition openTimerCallback :: "Dom \<Rightarrow> ref \<Rightarrow> state \<Rightarrow> error + state" where
  "openTimerCallback env this s =
     (if this < length (menus s) \<and> openTimerID (menus s ! this) \<noteq> 0
      then openChildMenu env this (modify this (\<lambda>M. M\<lparr>openTimerID := 0\<rparr>) s)
      else Inr s)"

definition closeTimerCallback :: "ref \<Rightarrow> state \<Rightarrow> error + state" where
  "closeTimerCallback this s =
     (if this < length (menus s) \<and> closeTimerID (menus s ! this) \<noteq> 0
      then closeChildMenu this (modify this (\<lambda>M. M\<lparr>closeTimerID := 0\<rparr>) s)
      else Inr s)"

text \<open>The operations on the menus of a store: the constructor, the public interface, the
  delivery of an event and the expiry of a timer.\<close>

datatype operation =
    NewMenu
  | SetActiveIndex ref real
  | SetActiveItem ref MenuItem
  | AddItem ref MenuItem
  | InsertItem ref real MenuItem
  | RemoveItem ref real
  | ClearItems ref
  | Open ref real real OpenOptions
  | Close ref
  | Dispose ref
  | HandleEvent ref Event
  | OpenTimer ref
  | CloseTimer ref

definition perform :: "Dom \<Rightarrow> operation \<Rightarrow> state \<Rightarrow> (error + state) option" where
  "perform env op s =
     (case op of
        NewMenu \<Rightarrow> Some (Inr (s\<lparr>menus := menus s @ [Menu_new]\<rparr>))
      | SetActiveIndex m v \<Rightarrow> Some (onMenu m (setActiveIndex v) s)
      | SetActiveItem m v \<Rightarrow> Some (onMenu m (setActiveItem v) s)
      | AddItem m item \<Rightarrow> Some (addItem m item s)
      | InsertItem m index item \<Rightarrow> Some (insertItem m index item s)
      | RemoveItem m index \<Rightarrow> Some (removeItem m index s)
      | ClearItems m \<Rightarrow> Some (clearItems m s)
      | Open m x y options \<Rightarrow> Some (onMenu m (open' env x y options) s)
      | Close m \<Rightarrow> Some (close m s)
      | Dispose m \<Rightarrow> Some (dispose m s)
      | HandleEvent m event \<Rightarrow> handleEvent env m event s
      | OpenTimer m \<Rightarrow> Some (openTimerCallback env m s)
      | CloseTimer m \<Rightarrow> Some (closeTimerCallback m s))"

text \<open>The store before any menu is constructed.\<close>

definition initial :: state where
  "initial = \<lparr>menus = [], emitted = [], timerCount = 0\<rparr>"

section \<open>Properties\<close>

subsection \<open>Rendering returns\<close>

lemma hideNode_ok:
  "0 \<le> k \<Longrightarrow> k < int (length ns) \<Longrightarrow>
   \<exists>ns'. hideNode ns k = Inr ns' \<and> length ns' = length ns"
  by (simp add: hideNode_def)

lemma updateNodes_ok:
  "length its \<le> length ns \<Longrightarrow>
   \<exists>ns'. updateNodes its ns i = Inr ns' \<and> length ns' = length ns"
proof (induction its ns i rule: updateNodes.induct)
  case (1 its ns i)
  show ?case
  proof (cases "i < length its")
    case True
    with "1.prems" have a: "vec_at ns (int i) = Some (ns ! i)" by (simp add: vec_at_def)
    have "\<exists>ns'. updateNodes its (ns[i := updateItemNode (ns ! i) (its ! i)]) (i + 1) = Inr ns'
        \<and> length ns' = length (ns[i := updateItemNode (ns ! i) (its ! i)])"
      using True a "1.prems" by (intro "1.IH") simp_all
    then show ?thesis using True a by (subst updateNodes.simps) simp
  next
    case False
    then show ?thesis by (subst updateNodes.simps) simp
  qed
qed

lemma hideLeading_ok:
  "length its \<le> length ns \<Longrightarrow> 0 \<le> k1 \<Longrightarrow>
   \<exists>ns' k. hideLeading its ns k1 = Inr (ns', k) \<and> length ns' = length ns \<and> 0 \<le> k"
proof (induction its ns k1 rule: hideLeading.induct)
  case (1 its ns k1)
  show ?case
  proof (cases "0 \<le> k1 \<and> k1 < int (length its)")
    case True
    note inr = True
    show ?thesis
    proof (cases "hidden (its ! nat k1)")
      case True
      then show ?thesis using inr "1.IH"(1) [OF inr refl True] "1.prems"
        by (subst hideLeading.simps) simp
    next
      case False
      note nh = False
      show ?thesis
      proof (cases "type (its ! nat k1) \<noteq> Separator")
        case True
        then show ?thesis using inr nh "1.prems" by (subst hideLeading.simps) simp
      next
        case False
        from inr "1.prems" obtain ns' where h: "hideNode ns k1 = Inr ns'" "length ns' = length ns"
          using hideNode_ok [of k1 ns] by auto
        show ?thesis
          using inr nh False h "1.IH"(2) [OF inr refl nh False h(1)] "1.prems"
          by (subst hideLeading.simps) simp
      qed
    qed
  next
    case False
    then show ?thesis using "1.prems" by (subst hideLeading.simps) auto
  qed
qed

lemma hideTrailing_ok:
  "length its \<le> length ns \<Longrightarrow> k2 < int (length its) \<Longrightarrow>
   \<exists>ns' k. hideTrailing its ns k2 = Inr (ns', k) \<and> length ns' = length ns \<and> k < int (length its)"
proof (induction its ns k2 rule: hideTrailing.induct)
  case (1 its ns k2)
  show ?case
  proof (cases "0 \<le> k2 \<and> k2 < int (length its)")
    case True
    note inr = True
    show ?thesis
    proof (cases "hidden (its ! nat k2)")
      case True
      then show ?thesis using inr "1.IH"(1) [OF inr refl True] "1.prems"
        by (subst hideTrailing.simps) simp
    next
      case False
      note nh = False
      show ?thesis
      proof (cases "type (its ! nat k2) \<noteq> Separator")
        case True
        then show ?thesis using inr nh "1.prems" by (subst hideTrailing.simps) simp
      next
        case False
        from inr "1.prems" obtain ns' where h: "hideNode ns k2 = Inr ns'" "length ns' = length ns"
          using hideNode_ok [of k2 ns] by auto
        show ?thesis
          using inr nh False h "1.IH"(2) [OF inr refl nh False h(1)] "1.prems"
          by (subst hideTrailing.simps) simp
      qed
    qed
  next
    case False
    then show ?thesis using "1.prems" by (subst hideTrailing.simps) auto
  qed
qed

lemma hideConsecutive_ok:
  "length its \<le> length ns \<Longrightarrow> 0 \<le> k1 \<Longrightarrow> k2 < int (length its) \<Longrightarrow>
   \<exists>ns'. hideConsecutive its ns k1 k2 hide = Inr ns' \<and> length ns' = length ns"
proof (induction its ns k1 k2 hide rule: hideConsecutive.induct)
  case (1 its ns k1 k2 hide)
  show ?case
  proof (cases "k1 + 1 < k2")
    case True
    note lt = True
    with "1.prems" have rng: "0 \<le> k1 + 1 \<and> k1 + 1 < int (length its)" by simp
    show ?thesis
    proof (cases "hidden (its ! nat (k1 + 1))")
      case True
      then show ?thesis using lt rng "1.IH"(1) [OF lt rng refl True] "1.prems"
        by (subst hideConsecutive.simps) simp
    next
      case False
      note nh = False
      show ?thesis
      proof (cases "type (its ! nat (k1 + 1)) \<noteq> Separator")
        case True
        then show ?thesis using lt rng nh "1.IH"(2) [OF lt rng refl nh True] "1.prems"
          by (subst hideConsecutive.simps) simp
      next
        case False
        note sep = False
        show ?thesis
        proof (cases hide)
          case True
          from rng "1.prems" obtain ns' where h: "hideNode ns (k1 + 1) = Inr ns'" "length ns' = length ns"
            using hideNode_ok [of "k1 + 1" ns] by auto
          show ?thesis
            using lt rng nh sep True h "1.IH"(3) [OF lt rng refl nh sep True h(1)] "1.prems"
            by (subst hideConsecutive.simps) simp
        next
          case False
          then show ?thesis using lt rng nh sep "1.IH"(4) [OF lt rng refl nh sep False] "1.prems"
            by (subst hideConsecutive.simps) simp
        qed
      qed
    qed
  next
    case False
    then show ?thesis by (subst hideConsecutive.simps) simp
  qed
qed

lemma hideExtraSeparators_ok:
  assumes "length its \<le> length ns"
  shows "\<exists>ns'. hideExtraSeparators its ns = Inr ns' \<and> length ns' = length ns"
proof -
  obtain ns1 k1 where a: "hideLeading its ns 0 = Inr (ns1, k1)" "length ns1 = length ns" "0 \<le> k1"
    using hideLeading_ok [OF assms, of 0] by auto
  obtain ns2 k2 where b: "hideTrailing its ns1 (int (length its) - 1) = Inr (ns2, k2)"
      "length ns2 = length ns1" "k2 < int (length its)"
    using hideTrailing_ok [of its ns1 "int (length its) - 1"] assms a(2) by auto
  obtain ns3 where c: "hideConsecutive its ns2 k1 k2 False = Inr ns3" "length ns3 = length ns2"
    using hideConsecutive_ok [of its ns2 k1 k2 False] assms a b by auto
  show ?thesis using a b c by (simp add: hideExtraSeparators_def)
qed

text \<open>A menu whose item and node sequences have the same length and whose active index is
  \<open>-1\<close> or the index of a selectable item.\<close>

definition selectionOk :: "Menu \<Rightarrow> bool" where
  "selectionOk M \<longleftrightarrow>
     activeIndex M = -1 \<or>
     (0 \<le> activeIndex M \<and> activeIndex M < int (length (items M)) \<and>
      isSelectable (items M ! nat (activeIndex M)))"

definition menuOk :: "Menu \<Rightarrow> bool" where
  "menuOk M \<longleftrightarrow> length (items M) = length (nodes M) \<and> selectionOk M"

lemma addActive_ok:
  "0 \<le> i \<Longrightarrow> i < int (length ns) \<Longrightarrow>
   \<exists>ns'. addActive ns i = Inr ns' \<and> length ns' = length ns"
  by (simp add: addActive_def vec_at_def)

lemma removeActive_ok:
  "0 \<le> i \<Longrightarrow> i < int (length ns) \<Longrightarrow>
   \<exists>ns'. removeActive ns i = Inr ns' \<and> length ns' = length ns"
  by (simp add: removeActive_def vec_at_def)

lemma onUpdateRequest_ok:
  assumes "menuOk M"
  shows "\<exists>ns. onUpdateRequest M = Inr (M\<lparr>nodes := ns\<rparr>) \<and> length ns = length (nodes M)"
proof -
  from assms have len: "length (items M) = length (nodes M)" by (simp add: menuOk_def)
  obtain ns1 where a: "updateNodes (items M) (nodes M) 0 = Inr ns1" "length ns1 = length (nodes M)"
    using updateNodes_ok [of "items M" "nodes M" 0] len by auto
  have "\<exists>ns2. (if activeIndex M \<noteq> -1 then addActive ns1 (activeIndex M) else Inr ns1) = Inr ns2
      \<and> length ns2 = length ns1"
    using assms a(2) addActive_ok [of "activeIndex M" ns1]
    by (auto simp: menuOk_def selectionOk_def)
  then obtain ns2 where b:
    "(if activeIndex M \<noteq> -1 then addActive ns1 (activeIndex M) else Inr ns1) = Inr ns2"
    "length ns2 = length ns1" by blast
  obtain ns3 where c: "hideExtraSeparators (items M) ns2 = Inr ns3" "length ns3 = length ns2"
    using hideExtraSeparators_ok [of "items M" ns2] len a(2) b(2) by auto
  show ?thesis using a b c by (auto simp: onUpdateRequest_def)
qed

subsection \<open>Separator collapsing\<close>

text \<open>The items \<^verbatim>\<open>new MenuItem({type: 'separator'})\<close> and \<^verbatim>\<open>new MenuItem({text: t})\<close>, the
  positions of the nodes carrying the hidden marker, and these after a render pass.\<close>

definition sepItem :: MenuItem where "sepItem = MenuItem_default\<lparr>type := Separator\<rparr>"
definition normalItem :: "string \<Rightarrow> MenuItem" where "normalItem t = MenuItem_default\<lparr>text' := t\<rparr>"

definition suppressed :: "Node list \<Rightarrow> nat list" where
  "suppressed ns = filter (\<lambda>i. HIDDEN_CLASS \<in> set (classList (ns ! i))) [0..<length ns]"

definition suppressedAfterUpdate :: "Menu \<Rightarrow> error + nat list" where
  "suppressedAfterUpdate M =
     (case onUpdateRequest M of Inl e \<Rightarrow> Inl e | Inr M' \<Rightarrow> Inr (suppressed (nodes M')))"

definition exampleItems :: "MenuItem list" where
  "exampleItems = [sepItem, normalItem ''A'', sepItem, sepItem, normalItem ''B'', sepItem]"

definition exampleMenu :: Menu where
  "exampleMenu = Menu_new\<lparr>items := exampleItems, nodes := replicate 6 createItemNode\<rparr>"

text \<open>Claim C4, as stated, fails: on the six items separator, A, separator, separator, B,
  separator the render pass marks the nodes 0, 3 and 5, not the nodes 0, 2 and 5.\<close>

theorem C4_counterexample:
  "suppressedAfterUpdate exampleMenu = Inr [0, 3, 5] \<and>
   suppressedAfterUpdate exampleMenu \<noteq> Inr [0, 2, 5]"
  by code_simp

text \<open>Claim C4, amended: for six items that are, in order, a separator, a normal item, two
  separators, a normal item and a separator, none of them hidden, the separator-collapsing
  pass adds the hidden marker to exactly the nodes 0, 5 and 3 (the leading separator, the
  trailing one, and the second of the two consecutive ones); the node 2 is left as it is, so
  one separator stays visible between the two normal items.\<close>

theorem C4_separators:
  assumes "map type its = [Separator, Normal, Separator, Separator, Normal, Separator]"
    and "list_all (\<lambda>x. \<not> hidden x) its" and "length ns = 6"
  shows "hideExtraSeparators its ns =
    Inr (ns[0 := classList_add HIDDEN_CLASS (ns ! 0), 5 := classList_add HIDDEN_CLASS (ns ! 5),
            3 := classList_add HIDDEN_CLASS (ns ! 3)])"
proof -
  from assms(1) obtain a b c d e f where its: "its = [a, b, c, d, e, f]"
    by (auto simp: map_eq_Cons_conv)
  from assms(3) obtain n0 n1 n2 n3 n4 n5 where ns: "ns = [n0, n1, n2, n3, n4, n5]"
    by (auto simp: length_Suc_conv eval_nat_numeral)
  show ?thesis using assms(1,2) unfolding its ns
    by (simp add: hideExtraSeparators_def hideNode_def hideLeading.simps hideTrailing.simps
        hideConsecutive.simps)
qed

text \<open>The statement of C4 at the items of the claim, on freshly created nodes.\<close>

theorem C4_witness:
  "hideExtraSeparators exampleItems (replicate 6 createItemNode) =
     Inr ((replicate 6 createItemNode)
        [0 := classList_add HIDDEN_CLASS createItemNode,
         5 := classList_add HIDDEN_CLASS createItemNode,
         3 := classList_add HIDDEN_CLASS createItemNode])"
  using C4_separators [of exampleItems "replicate 6 createItemNode"]
  by (simp add: exampleItems_def sepItem_def normalItem_def MenuItem_default_def)

subsection \<open>Root placement\<close>

text \<open>The top and left coordinates written by \<^verbatim>\<open>open\<close>, and a viewport of 100 by 100
  pixels at the origin in which the menu measures \<open>w\<close> by \<open>h\<close>.\<close>

definition openedTop :: "Dom \<Rightarrow> real \<Rightarrow> real \<Rightarrow> OpenOptions \<Rightarrow> Menu \<Rightarrow> real option" where
  "openedTop env x y options M =
     (case open' env x y options M of Inl e \<Rightarrow> None | Inr M' \<Rightarrow> top' (style M'))"

definition openedLeft :: "Dom \<Rightarrow> real \<Rightarrow> real \<Rightarrow> OpenOptions \<Rightarrow> Menu \<Rightarrow> real option" where
  "openedLeft env x y options M =
     (case open' env x y options M of Inl e \<Rightarrow> None | Inr M' \<Rightarrow> left (style M'))"

definition exampleDom :: "real \<Rightarrow> real \<Rightarrow> Dom" where
  "exampleDom w h =
     \<lparr>pageXOffset = 0, pageYOffset = 0, clientWidth = 100, clientHeight = 100,
      scrollHeight = h, offsetWidth = w, nodeClientWidth = w, rectWidth = w, rectHeight = h,
      borderTop = 1, paddingTop = 2, borderBottom = 1, paddingBottom = 2,
      itemLeft = 10, itemRight = 60, itemTop = 20, itemBottom = 40,
      hitTestItem = (\<lambda>m i x y. False), hitTestMenu = (\<lambda>m x y. False)\<rparr>"

definition noOptions :: OpenOptions where
  "noOptions = \<lparr>forceX = None, forceY = None\<rparr>"

lemma open'_ok:
  assumes "menuOk M" "\<not> isAttached M"
  shows "\<exists>M'. open' env x y options M = Inr M' \<and>
     top' (style M') = Some (max 0 (adjustY (forceY options = Some True) y (rectHeight env)
        (pageYOffset env) (clientHeight env))) \<and>
     left (style M') = Some (max 0 (adjustX (forceX options = Some True) x (rectWidth env)
        (pageXOffset env) (clientWidth env))) \<and>
     isAttached M' \<and> items M' = items M \<and> activeIndex M' = activeIndex M \<and>
     length (nodes M') = length (nodes M)"
proof -
  obtain ns where u: "onUpdateRequest M = Inr (M\<lparr>nodes := ns\<rparr>)" "length ns = length (nodes M)"
    using onUpdateRequest_ok [OF assms(1)] by blast
  have fx: "(case forceX options of Some b \<Rightarrow> b | None \<Rightarrow> False) = (forceX options = Some True)"
    by (cases "forceX options") auto
  have fy: "(case forceY options of Some b \<Rightarrow> b | None \<Rightarrow> False) = (forceY options = Some True)"
    by (cases "forceY options") auto
  show ?thesis using assms(2) u
    by (simp add: open'_def openRootMenu_def Let_def fx fy attach_def)
qed

text \<open>Claim C6, as stated, fails: a menu of height 30 opened at \<open>y = 90\<close> in a viewport
  whose bottom is at 100 overflows by 20, and is placed at \<open>90 - 30 = 60\<close>, not at
  \<open>100 - 30 = 70\<close>.\<close>

theorem C6_counterexample:
  "(90::real) + rectHeight (exampleDom 50 30) > pageYOffset (exampleDom 50 30) + clientHeight (exampleDom 50 30) \<and>
   openedTop (exampleDom 50 30) 10 90 noOptions Menu_new = Some 60 \<and>
   pageYOffset (exampleDom 50 30) + clientHeight (exampleDom 50 30) - rectHeight (exampleDom 50 30) = 70 \<and>
   adjustY False 90 (rectHeight (exampleDom 50 30)) (pageYOffset (exampleDom 50 30)) (clientHeight (exampleDom 50 30)) = 60"
  by (simp add: openedTop_def open'_def openRootMenu_def onUpdateRequest_def updateNodes.simps
      hideExtraSeparators_def hideLeading.simps hideTrailing.simps hideConsecutive.simps
      exampleDom_def noOptions_def Menu_new_def adjustX_def adjustY_def attach_def Let_def)

text \<open>Claim C6, amended: when the vertical position is not forced and the requested \<open>y\<close>
  plus the measured height exceeds the viewport bottom, the top coordinate before the
  clamp is the viewport bottom minus the height if \<open>y\<close> is itself past the viewport bottom,
  and \<open>y\<close> minus the height otherwise (the menu is placed above the requested point); the
  coordinate written is the maximum of that and 0.\<close>

theorem C6_root_y:
  assumes "menuOk M" "\<not> isAttached M" "forceY options \<noteq> Some True"
    and "y + rectHeight env > pageYOffset env + clientHeight env"
  shows "adjustY False y (rectHeight env) (pageYOffset env) (clientHeight env) =
           (if y > pageYOffset env + clientHeight env
            then pageYOffset env + clientHeight env - rectHeight env
            else y - rectHeight env) \<and>
         openedTop env x y options M =
           Some (max 0 (adjustY False y (rectHeight env) (pageYOffset env) (clientHeight env)))"
  using open'_ok [OF assms(1,2), of env x y options] assms(3,4)
  by (auto simp: openedTop_def adjustY_def)

text \<open>The statement of C6 for a menu of height 30 opened at \<open>y = 90\<close> and at \<open>y = 120\<close>.\<close>

theorem C6_witness:
  "openedTop (exampleDom 50 30) 10 90 noOptions Menu_new = Some (max 0 (90 - 30)) \<and>
   openedTop (exampleDom 50 30) 10 120 noOptions Menu_new = Some (max 0 (100 - 30))"
  using C6_root_y [where M = Menu_new and options = noOptions and y = 90 and env = "exampleDom 50 30" and x = 10]
    C6_root_y [where M = Menu_new and options = noOptions and y = 120 and env = "exampleDom 50 30" and x = 10]
  by (simp add: menuOk_def selectionOk_def Menu_new_def noOptions_def exampleDom_def adjustY_def)

text \<open>Claim C7, as stated, fails: a menu of width 150 opened at \<open>x = 10\<close> in a viewport of
  width 100 is placed at 0 and its right edge, 150, is past the viewport; and with a forced
  \<open>x = -5\<close> the menu is placed at 0.\<close>

theorem C7_counterexample:
  "(10::real) + rectWidth (exampleDom 150 30) > pageXOffset (exampleDom 150 30) + clientWidth (exampleDom 150 30) \<and>
   openedLeft (exampleDom 150 30) 10 0 noOptions Menu_new = Some 0 \<and>
   (0::real) + rectWidth (exampleDom 150 30) \<noteq> pageXOffset (exampleDom 150 30) + clientWidth (exampleDom 150 30) \<and>
   openedLeft (exampleDom 150 30) (-5) 0 \<lparr>forceX = Some True, forceY = None\<rparr> Menu_new = Some 0"
  by (simp add: openedLeft_def open'_def openRootMenu_def onUpdateRequest_def updateNodes.simps
      hideExtraSeparators_def hideLeading.simps hideTrailing.simps hideConsecutive.simps
      exampleDom_def noOptions_def Menu_new_def adjustX_def adjustY_def attach_def Let_def)

text \<open>Claim C7, amended: when the horizontal position is not forced and the requested \<open>x\<close>
  plus the measured width exceeds the viewport right edge, the left coordinate written is
  the maximum of 0 and the viewport right edge minus the width, so the right edge of the
  menu is the viewport right edge whenever the menu is not wider than that; when the
  position is forced, the coordinate written is the maximum of 0 and \<open>x\<close>, so a
  non-negative \<open>x\<close> is honoured exactly.\<close>

theorem C7_root_x:
  assumes "menuOk M" "\<not> isAttached M"
  shows "(forceX options \<noteq> Some True \<and> x + rectWidth env > pageXOffset env + clientWidth env \<longrightarrow>
           openedLeft env x y options M =
             Some (max 0 (pageXOffset env + clientWidth env - rectWidth env)) \<and>
           (rectWidth env \<le> pageXOffset env + clientWidth env \<longrightarrow>
              openedLeft env x y options M =
                Some (pageXOffset env + clientWidth env - rectWidth env))) \<and>
         (forceX options = Some True \<longrightarrow>
           openedLeft env x y options M = Some (max 0 x) \<and>
           (0 \<le> x \<longrightarrow> openedLeft env x y options M = Some x))"
  using open'_ok [OF assms(1,2), of env x y options]
  by (auto simp: openedLeft_def adjustX_def)

text \<open>The statement of C7 for a menu of width 50 opened at \<open>x = 80\<close>.\<close>

theorem C7_witness:
  "openedLeft (exampleDom 50 30) 80 0 noOptions Menu_new = Some (100 - 50) \<and>
   openedLeft (exampleDom 50 30) 80 0 \<lparr>forceX = Some True, forceY = None\<rparr> Menu_new = Some 80"
  using C7_root_x [where M = Menu_new and options = noOptions and x = 80 and env = "exampleDom 50 30" and y = 0]
    C7_root_x [where M = Menu_new and options = "\<lparr>forceX = Some True, forceY = None\<rparr>" and x = 80
      and env = "exampleDom 50 30" and y = 0]
  by (simp add: menuOk_def selectionOk_def Menu_new_def noOptions_def exampleDom_def)

subsection \<open>Events\<close>

text \<open>Claim C10: a \<^verbatim>\<open>mouseup\<close> event whose button is not the left one leaves the whole
  store as it is (every field of every menu, the items and nodes, the timers and the
  signals emitted), and the handler returns.\<close>

theorem C10_mouseup_other_button:
  assumes "button event \<noteq> 0" "this < length (menus s)"
  shows "handleEvent env this (MouseUp event) s = Some (Inr s)"
  using assms by (simp add: handleEvent_def evtMouseUp_def)

text \<open>The statement of C10 for a release of the right button over a store of one new menu.\<close>

theorem C10_witness:
  "handleEvent (exampleDom 50 30) 0 (MouseUp \<lparr>button = 2, clientX = 0, clientY = 0\<rparr>)
     (initial\<lparr>menus := [Menu_new]\<rparr>) = Some (Inr (initial\<lparr>menus := [Menu_new]\<rparr>))"
  using C10_mouseup_other_button [where event = "\<lparr>button = 2, clientX = 0, clientY = 0\<rparr>"
      and this = 0 and s = "initial\<lparr>menus := [Menu_new]\<rparr>" and env = "exampleDom 50 30"]
  by simp

subsection \<open>The selection setter\<close>

text \<open>The index the setter \<^verbatim>\<open>activeIndex\<close> stores for the value \<open>v\<close>.\<close>

definition coerceIndex :: "Menu \<Rightarrow> real \<Rightarrow> int" where
  "coerceIndex M v =
     (if \<lfloor>v\<rfloor> < 0 \<or> \<lfloor>v\<rfloor> \<ge> int (length (items M)) \<or> \<not> isSelectable (items M ! nat \<lfloor>v\<rfloor>)
      then -1 else \<lfloor>v\<rfloor>)"

lemma setActiveIndex_ok:
  assumes "menuOk M"
  shows "\<exists>ns. setActiveIndex v M = Inr (M\<lparr>nodes := ns, activeIndex := coerceIndex M v\<rparr>) \<and>
     length ns = length (nodes M)"
proof -
  from assms have len: "length (items M) = length (nodes M)" by (simp add: menuOk_def)
  let ?i = "coerceIndex M v"
  have ci: "?i = -1 \<or> (0 \<le> ?i \<and> ?i < int (length (nodes M)))"
    using len by (auto simp: coerceIndex_def)
  have ai: "activeIndex M = -1 \<or> (0 \<le> activeIndex M \<and> activeIndex M < int (length (nodes M)))"
    using assms by (auto simp: menuOk_def selectionOk_def)
  show ?thesis
  proof (cases "activeIndex M = ?i")
    case True
    have "M\<lparr>nodes := nodes M, activeIndex := coerceIndex M v\<rparr> = M" using True by simp
    then show ?thesis using True
      by (intro exI [of _ "nodes M"]) (auto simp: setActiveIndex_def Let_def coerceIndex_def)
  next
    case False
    obtain ns1 where a: "(if activeIndex M \<noteq> -1 then removeActive (nodes M) (activeIndex M)
          else Inr (nodes M)) = Inr ns1" "length ns1 = length (nodes M)"
      using ai removeActive_ok [of "activeIndex M" "nodes M"] by auto
    obtain ns2 where b: "(if ?i \<noteq> -1 then addActive ns1 ?i else Inr ns1) = Inr ns2"
        "length ns2 = length ns1"
      using ci a(2) addActive_ok [of ?i ns1] by auto
    have "setActiveIndex v M = Inr (M\<lparr>nodes := ns2, activeIndex := ?i\<rparr>)"
      using False a(1) b(1)
      by (auto simp: setActiveIndex_def Let_def coerceIndex_def split: if_splits)
    then show ?thesis using a(2) b(2) by auto
  qed
qed

lemma coerceIndex_selectable:
  "k < length (items M) \<Longrightarrow> isSelectable (items M ! k) \<Longrightarrow> coerceIndex M (of_int (int k)) = int k"
  by (simp add: coerceIndex_def)

lemma coerceIndex_minus1 [simp]: "coerceIndex M (-1) = -1"
  by (simp add: coerceIndex_def)

lemma coerceIndex_ok:
  "selectionOk (M\<lparr>nodes := ns, activeIndex := coerceIndex M v\<rparr>)"
  by (auto simp: selectionOk_def coerceIndex_def)

subsection \<open>Mnemonic activation\<close>

text \<open>The order in which \<^verbatim>\<open>activateNextMnemonic\<close> visits the items (cyclically, from the
  position after the active index), the test it applies to the item at a position, and the
  index of a search result.\<close>

definition scanOrder :: "Menu \<Rightarrow> nat list" where
  "scanOrder M =
     map (\<lambda>i. (i + nat (activeIndex M + 1)) mod length (items M)) [0..<length (items M)]"

definition mnemonicMatches :: "Menu \<Rightarrow> char \<Rightarrow> nat \<Rightarrow> bool" where
  "mnemonicMatches M ch k \<longleftrightarrow>
     isSelectable (items M ! k) \<and>
     (case matchMnemonic (text' (items M ! k)) of
        None \<Rightarrow> False
      | Some m \<Rightarrow> toUpperCase (m ! 2) = toUpperCase ch)"

definition foundIndex :: "nat option \<Rightarrow> int" where
  "foundIndex r = (case r of None \<Rightarrow> -1 | Some k \<Rightarrow> int k)"

lemma js_rem_nonneg: "0 \<le> a \<Longrightarrow> js_rem a n = a mod n"
  by (simp add: js_rem_def)

lemma nextMnemonicLoop_find:
  assumes "0 \<le> j"
  shows "nextMnemonicLoop M (toUpperCase ch) j i =
     setActiveIndex (of_int (foundIndex (find (mnemonicMatches M ch)
        (map (\<lambda>i. (i + nat j) mod length (items M)) [i..<length (items M)])))) M"
  using assms
proof (induction M "toUpperCase ch" j i rule: nextMnemonicLoop.induct)
  case (1 M j i)
  let ?n = "length (items M)"
  show ?case
  proof (cases "i < ?n")
    case True
    let ?k = "(i + nat j) mod ?n"
    have k: "js_rem (int i + j) (int ?n) = int ?k"
      using "1.prems" by (simp add: js_rem_nonneg zmod_int)
    from True have npos: "0 < ?n" by (cases "items M") simp_all
    then have klt: "?k < ?n" by simp
    have at: "vec_at (items M) (int ?k) = Some (items M ! ?k)"
      using klt by (simp add: vec_at_def)
    have upt: "[i..<?n] = i # [i + 1..<?n]" using True by (simp add: upt_conv_Cons)
    show ?thesis
    proof (cases "mnemonicMatches M ch ?k")
      case True
      then show ?thesis using \<open>i < ?n\<close> k at upt
        by (subst nextMnemonicLoop.simps)
           (auto simp: mnemonicMatches_def foundIndex_def split: option.splits)
    next
      case False
      have ih: "nextMnemonicLoop M (toUpperCase ch) j (i + 1) =
          setActiveIndex (of_int (foundIndex (find (mnemonicMatches M ch)
            (map (\<lambda>i. (i + nat j) mod ?n) [i + 1..<?n])))) M"
      proof (cases "isSelectable (items M ! ?k)")
        case False
        then show ?thesis using "1.hyps"(1) [OF True k [symmetric] at] "1.prems" by simp
      next
        case sel: True
        show ?thesis
        proof (cases "matchMnemonic (text' (items M ! ?k))")
          case None
          then show ?thesis using "1.hyps"(2) [OF True k [symmetric] at _ None] sel "1.prems"
            by simp
        next
          case (Some m)
          with False sel have "toUpperCase (m ! 2) \<noteq> toUpperCase ch"
            by (simp add: mnemonicMatches_def)
          then show ?thesis using "1.hyps"(3) [OF True k [symmetric] at _ Some] sel "1.prems"
            by simp
        qed
      qed
      show ?thesis using False \<open>i < ?n\<close> k at upt ih
        by (subst nextMnemonicLoop.simps)
           (auto simp: mnemonicMatches_def split: option.splits)
    qed
  next
    case False
    then show ?thesis by (subst nextMnemonicLoop.simps) (simp add: foundIndex_def)
  qed
qed

lemma isWordChar_amp [simp]: "\<not> isWordChar (CHR ''&'')"
  by (simp add: isWordChar_def lowerCaseLetters_def upperCaseLetters_def)

lemma matchMnemonic_tl: "matchMnemonic (x # ys) = None \<Longrightarrow> matchMnemonic ys = None"
proof (cases ys)
  case Nil
  then show ?thesis by simp
next
  case (Cons b zs)
  assume a: "matchMnemonic (x # ys) = None"
  show ?thesis
  proof (cases zs)
    case Nil
    with Cons show ?thesis by simp
  next
    case (Cons c cs)
    with \<open>ys = b # zs\<close> a show ?thesis by (auto split: if_splits)
  qed
qed

lemma matchMnemonic_None:
  "matchMnemonic (p @ CHR ''&'' # CHR ''&'' # c # r) = None \<Longrightarrow> \<not> isWordChar c"
proof (induction p)
  case Nil
  then show ?case by (auto split: if_splits)
next
  case (Cons x p)
  from Cons.prems have "matchMnemonic (p @ CHR ''&'' # CHR ''&'' # c # r) = None"
    using matchMnemonic_tl [of x "p @ CHR ''&'' # CHR ''&'' # c # r"] by simp
  then show ?case by (rule Cons.IH)
qed

lemma matchMnemonic_Some:
  "matchMnemonic t = Some m \<Longrightarrow>
   \<exists>p c r. t = p @ CHR ''&'' # CHR ''&'' # c # r \<and> isWordChar c \<and>
     m = [CHR ''&'', CHR ''&'', c] \<and> matchMnemonic (p @ [CHR ''&'', CHR ''&'']) = None"
proof (induction t rule: matchMnemonic.induct)
  case (1 a b c cs)
  show ?case
  proof (cases "a = CHR ''&'' \<and> b = CHR ''&'' \<and> isWordChar c")
    case True
    with "1.prems" show ?thesis by (intro exI [of _ "[]"]) auto
  next
    case False
    with "1.prems" have "matchMnemonic (b # c # cs) = Some m" by (auto split: if_splits)
    from "1.IH" [OF False this] obtain p c' r where
      h: "b # c # cs = p @ CHR ''&'' # CHR ''&'' # c' # r" "isWordChar c'"
         "m = [CHR ''&'', CHR ''&'', c']" "matchMnemonic (p @ [CHR ''&'', CHR ''&'']) = None"
      by blast
    have "matchMnemonic ((a # p) @ [CHR ''&'', CHR ''&'']) = None"
    proof (cases p)
      case Nil
      then show ?thesis by simp
    next
      case (Cons x p')
      note px = Cons
      show ?thesis
      proof (cases p')
        case Nil
        with px h(1) False h(4) show ?thesis by auto
      next
        case (Cons y p'')
        with px h(1) False h(4) show ?thesis by auto
      qed
    qed
    with h show ?thesis by (intro exI [of _ "a # p"]) auto
  qed
qed simp_all

text \<open>The match of claim C5, in the words of the spec: the label contains the marker
  immediately followed by a character equal to the typed one up to case.\<close>

fun labelHasMnemonic_spec :: "string \<Rightarrow> char \<Rightarrow> bool" where
  "labelHasMnemonic_spec (a # b # c # cs) ch \<longleftrightarrow>
     (a = CHR ''&'' \<and> b = CHR ''&'' \<and> toUpperCase c = toUpperCase ch) \<or>
     labelHasMnemonic_spec (b # c # cs) ch"
| "labelHasMnemonic_spec cs ch \<longleftrightarrow> False"

text \<open>A menu of normal items with the given labels on freshly created nodes, and the active
  index after a character is typed.\<close>

definition mnemonicMenu :: "string list \<Rightarrow> Menu" where
  "mnemonicMenu labels =
     Menu_new\<lparr>items := map normalItem labels, nodes := map (\<lambda>l. createItemNode) labels\<rparr>"

definition activeAfterMnemonic :: "Menu \<Rightarrow> char \<Rightarrow> error + int" where
  "activeAfterMnemonic M ch =
     (case activateNextMnemonic M ch of Inl e \<Rightarrow> Inl e | Inr M' \<Rightarrow> Inr (activeIndex M'))"

lemmas mnemonic_eval =
  activeAfterMnemonic_def activateNextMnemonic_def nextMnemonicLoop.simps mnemonicMenu_def
  normalItem_def MenuItem_default_def Menu_new_def createItemNode_def isSelectable_def
  toUpperCase_def lowerCaseLetters_def upperCaseLetters_def isWordChar_def js_rem_def
  vec_at_def setActiveIndex_def removeActive_def addActive_def classList_add_def
  classList_remove_def Let_def

text \<open>Claim C5, as stated, fails: the label \<^verbatim>\<open>&&a &&b\<close> contains the marker followed by
  \<^verbatim>\<open>b\<close>, and the label \<^verbatim>\<open>&&-x\<close> the marker followed by \<^verbatim>\<open>-\<close>, but typing \<^verbatim>\<open>b\<close>,
  respectively \<^verbatim>\<open>-\<close>, activates nothing.\<close>

theorem C5_counterexample:
  "isSelectable (items (mnemonicMenu [''&&a &&b'']) ! 0) \<and>
   labelHasMnemonic_spec (text' (items (mnemonicMenu [''&&a &&b'']) ! 0)) (CHR ''b'') \<and>
   activeAfterMnemonic (mnemonicMenu [''&&a &&b'']) (CHR ''b'') = Inr (-1) \<and>
   isSelectable (items (mnemonicMenu [''&&-x'']) ! 0) \<and>
   labelHasMnemonic_spec (text' (items (mnemonicMenu [''&&-x'']) ! 0)) (CHR ''-'') \<and>
   activeAfterMnemonic (mnemonicMenu [''&&-x'']) (CHR ''-'') = Inr (-1)"
  by (simp add: mnemonic_eval)

text \<open>Claim C5, amended: for every typed character, mnemonic activation scans the items
  cyclically starting just after the current selection and activates the first selectable
  item in whose label the leftmost occurrence of the marker followed by a word character
  (\<open>matchMnemonic\<close>, see \<open>matchMnemonic_Some\<close>) has that character equal to the typed one up
  to case; if no item matches, the selection is cleared to \<open>-1\<close>.\<close>

theorem C5_mnemonic:
  assumes "menuOk M"
  shows "\<exists>M'. activateNextMnemonic M ch = Inr M' \<and> items M' = items M \<and>
     activeIndex M' = foundIndex (find (mnemonicMatches M ch) (scanOrder M))"
proof -
  let ?r = "find (mnemonicMatches M ch) (scanOrder M)"
  from assms have j: "0 \<le> activeIndex M + 1" by (auto simp: menuOk_def selectionOk_def)
  have eq: "activateNextMnemonic M ch = setActiveIndex (of_int (foundIndex ?r)) M"
    using nextMnemonicLoop_find [OF j, of M ch 0]
    by (simp add: activateNextMnemonic_def scanOrder_def)
  have co: "coerceIndex M (of_int (foundIndex ?r)) = foundIndex ?r"
  proof (cases ?r)
    case None
    then show ?thesis by (simp add: foundIndex_def coerceIndex_def)
  next
    case (Some k)
    then have "k \<in> set (scanOrder M)" "mnemonicMatches M ch k"
      by (auto simp: find_Some_iff)
    then have "k < length (items M)" "isSelectable (items M ! k)"
      by (auto simp: scanOrder_def mnemonicMatches_def intro!: mod_less_divisor
          elim: less_imp_neq [THEN notE] dest: gr_implies_not0 intro: gr0I)
    then show ?thesis using Some coerceIndex_selectable [of k M] by (simp add: foundIndex_def)
  qed
  obtain ns where "setActiveIndex (of_int (foundIndex ?r)) M =
      Inr (M\<lparr>nodes := ns, activeIndex := coerceIndex M (of_int (foundIndex ?r))\<rparr>)"
    using setActiveIndex_ok [OF assms] by blast
  then show ?thesis using eq co by simp
qed

text \<open>The statement of C5 on the labels \<^verbatim>\<open>&&Save\<close>, \<^verbatim>\<open>&&Open\<close>, \<^verbatim>\<open>Close\<close>.\<close>

theorem C5_witness:
  "activeAfterMnemonic (mnemonicMenu [''&&Save'', ''&&Open'', ''Close'']) (CHR ''o'') = Inr 1 \<and>
   activeAfterMnemonic (mnemonicMenu [''&&Save'', ''&&Open'', ''Close'']) (CHR ''x'') = Inr (-1)"
  using C5_mnemonic [where M = "mnemonicMenu [''&&Save'', ''&&Open'', ''Close'']" and ch = "CHR ''o''"]
    C5_mnemonic [where M = "mnemonicMenu [''&&Save'', ''&&Open'', ''Close'']" and ch = "CHR ''x''"]
  by (auto simp: activeAfterMnemonic_def menuOk_def selectionOk_def mnemonicMenu_def Menu_new_def
      scanOrder_def mnemonicMatches_def foundIndex_def normalItem_def MenuItem_default_def
      isSelectable_def toUpperCase_def lowerCaseLetters_def upperCaseLetters_def isWordChar_def
      upt_conv_Cons)

subsection \<open>Closing\<close>

lemma menus_modify [simp]: "menus (modify m f s) = (menus s)[m := f (menus s ! m)]"
  by (simp add: modify_def)

lemma emitted_modify [simp]: "emitted (modify m f s) = emitted s"
  by (simp add: modify_def)

lemma timerCount_modify [simp]: "timerCount (modify m f s) = timerCount s"
  by (simp add: modify_def)

lemma menus_emit [simp]: "menus (emit m g s) = menus s"
  by (simp add: emit_def)

lemma emitted_emit [simp]: "emitted (emit m g s) = emitted s @ [(m, g)]"
  by (simp add: emit_def)

lemma timerCount_emit [simp]: "timerCount (emit m g s) = timerCount s"
  by (simp add: emit_def)

text \<open>The state a close leaves a menu in: no pending timer, no active item, no open child,
  no parent menu, not mounted.\<close>

definition isClosed :: "Menu \<Rightarrow> bool" where
  "isClosed M \<longleftrightarrow>
     openTimerID M = 0 \<and> closeTimerID M = 0 \<and> activeIndex M = -1 \<and> childMenu M = None \<and>
     parentMenu M = None \<and> parent M = None \<and> \<not> isAttached M"

text \<open>What closing may do to a menu: the items, the number of nodes and the style stay,
  every other field stays or is reset.\<close>

definition resets :: "Menu \<Rightarrow> Menu \<Rightarrow> bool" where
  "resets M M' \<longleftrightarrow>
     items M' = items M \<and> length (nodes M') = length (nodes M) \<and> style M' = style M \<and>
     (activeIndex M' = activeIndex M \<or> activeIndex M' = -1) \<and>
     (openTimerID M' = openTimerID M \<or> openTimerID M' = 0) \<and>
     (closeTimerID M' = closeTimerID M \<or> closeTimerID M' = 0) \<and>
     (childMenu M' = childMenu M \<and> childIndex M' = childIndex M \<or>
      childMenu M' = None \<and> childIndex M' = -1) \<and>
     (parentMenu M' = parentMenu M \<or> parentMenu M' = None) \<and>
     (parent M' = parent M \<or> parent M' = None) \<and>
     (isAttached M' = isAttached M \<or> \<not> isAttached M')"

lemma resets_refl [simp]: "resets M M"
  by (simp add: resets_def)

lemma resets_trans: "resets A B \<Longrightarrow> resets B C \<Longrightarrow> resets A C"
  unfolding resets_def by (elim conjE) (intro conjI; metis)

definition resetsAll :: "state \<Rightarrow> state \<Rightarrow> bool" where
  "resetsAll s s' \<longleftrightarrow>
     length (menus s') = length (menus s) \<and> timerCount s' = timerCount s \<and>
     (\<forall>x < length (menus s). resets (menus s ! x) (menus s' ! x))"

lemma resetsAll_refl [simp]: "resetsAll s s"
  by (simp add: resetsAll_def)

lemma resetsAll_trans: "resetsAll a b \<Longrightarrow> resetsAll b c \<Longrightarrow> resetsAll a c"
  unfolding resetsAll_def by (auto intro: resets_trans)

lemma nth_update_cases:
  "x < length xs \<Longrightarrow> xs[m := y] ! x = (if x = m then y else xs ! x)"
  by (cases "m < length xs") (auto simp: nth_list_update list_update_beyond)

lemma resetsAll_modify:
  "(\<And>M. resets M (f M)) \<Longrightarrow> resetsAll s (modify m f s)"
  by (auto simp: resetsAll_def nth_update_cases)

lemma resetsAll_emit [simp]: "resetsAll s (emit m g s)"
  by (simp add: resetsAll_def)

lemma setActiveIndex_minus1:
  "setActiveIndex (-1) M = Inr M' \<Longrightarrow>
   \<exists>ns. M' = M\<lparr>nodes := ns, activeIndex := -1\<rparr> \<and> length ns = length (nodes M)"
proof (cases "activeIndex M = -1")
  case True
  assume "setActiveIndex (-1) M = Inr M'"
  with True have "M' = M" by (simp add: setActiveIndex_def)
  with True have "M' = M\<lparr>nodes := nodes M, activeIndex := -1\<rparr>" by simp
  then show ?thesis by blast
next
  case False
  assume "setActiveIndex (-1) M = Inr M'"
  with False show ?thesis
    by (auto simp: setActiveIndex_def Let_def removeActive_def vec_at_def
        split: if_splits sum.splits option.splits)
qed

lemma closeHead_resets:
  "closeHead M = Inr M' \<Longrightarrow>
   resets M M' \<and> openTimerID M' = 0 \<and> closeTimerID M' = 0 \<and> activeIndex M' = -1"
  by (auto simp: closeHead_def resets_def cancelOpenTimer_def cancelCloseTimer_def
      dest!: setActiveIndex_minus1 split: if_splits)

lemma closeTail_resetsAll: "resetsAll s (closeTail this s)"
proof -
  let ?s1 = "case parentMenu (menus s ! this) of None \<Rightarrow> s
     | Some p \<Rightarrow> modify p (\<lambda>P. (cancelCloseTimer (cancelOpenTimer P))\<lparr>childIndex := -1, childMenu := None\<rparr>)
          (modify this (\<lambda>M. M\<lparr>parentMenu := None\<rparr>) s)"
  have a: "resetsAll s ?s1"
  proof (cases "parentMenu (menus s ! this)")
    case None
    then show ?thesis by simp
  next
    case (Some p)
    have "resetsAll s (modify this (\<lambda>M. M\<lparr>parentMenu := None\<rparr>) s)"
      by (rule resetsAll_modify) (simp add: resets_def)
    moreover have "resetsAll (modify this (\<lambda>M. M\<lparr>parentMenu := None\<rparr>) s)
       (modify p (\<lambda>P. (cancelCloseTimer (cancelOpenTimer P))\<lparr>childIndex := -1, childMenu := None\<rparr>)
          (modify this (\<lambda>M. M\<lparr>parentMenu := None\<rparr>) s))"
      by (rule resetsAll_modify) (simp add: resets_def cancelOpenTimer_def cancelCloseTimer_def)
    ultimately show ?thesis using Some by (auto intro: resetsAll_trans)
  qed
  have b: "resetsAll ?s1 (emit this Closed (modify this unparent ?s1))"
    by (rule resetsAll_trans [OF resetsAll_modify resetsAll_emit]) (simp add: resets_def unparent_def)
  have c: "resetsAll ?s1 (emit this Closed (modify this detach ?s1))"
    by (rule resetsAll_trans [OF resetsAll_modify resetsAll_emit])
       (auto simp add: resets_def detach_def)
  have "closeTail this s =
     (if parent (menus ?s1 ! this) \<noteq> None then emit this Closed (modify this unparent ?s1)
      else if isAttached (menus ?s1 ! this) then emit this Closed (modify this detach ?s1)
      else ?s1)"
    by (simp add: closeTail_def Let_def)
  then show ?thesis using a b c by (auto intro: resetsAll_trans)
qed

definition preClosed :: "Menu \<Rightarrow> bool" where
  "preClosed M \<longleftrightarrow>
     openTimerID M = 0 \<and> closeTimerID M = 0 \<and> activeIndex M = -1 \<and> childMenu M = None"

lemma resets_preClosed: "resets M M' \<Longrightarrow> preClosed M \<Longrightarrow> preClosed M'"
  by (auto simp: resets_def preClosed_def)

lemma resetsAll_preClosed:
  "resetsAll s s' \<Longrightarrow> x < length (menus s) \<Longrightarrow> preClosed (menus s ! x) \<Longrightarrow>
   preClosed (menus s' ! x)"
  by (auto simp: resetsAll_def intro: resets_preClosed)

lemma closeTail_unmounted:
  assumes "this < length (menus s)"
  shows "parentMenu (menus (closeTail this s) ! this) = None \<and>
         parent (menus (closeTail this s) ! this) = None \<and>
         \<not> isAttached (menus (closeTail this s) ! this)"
  using assms
  by (auto simp: closeTail_def Let_def nth_update_cases unparent_def detach_def
      cancelOpenTimer_def cancelCloseTimer_def split: option.splits)

lemma closeTail_closed:
  assumes "this < length (menus s)" "preClosed (menus s ! this)"
  shows "isClosed (menus (closeTail this s) ! this)"
  using closeTail_unmounted [OF assms(1)]
    resetsAll_preClosed [OF closeTail_resetsAll assms(1) assms(2), of this]
  by (simp add: isClosed_def preClosed_def)

lemma closeTail_length [simp]: "length (menus (closeTail this s)) = length (menus s)"
  using closeTail_resetsAll [of s this] by (simp add: resetsAll_def)

lemma onCloseRequest_post:
  "onCloseRequest s this = Inr s' \<Longrightarrow>
   resetsAll s s' \<and> isClosed (menus s' ! this) \<and> this < length (menus s)"
proof (induction s this arbitrary: s' rule: onCloseRequest.induct)
  case (1 s this)
  from "1.prems" have lt: "this < length (menus s)"
    by (subst (asm) onCloseRequest.simps) (simp split: if_splits)
  from "1.prems" lt obtain M where M: "closeHead (menus s ! this) = Inr M"
    by (subst (asm) onCloseRequest.simps) (auto split: sum.splits)
  note h = closeHead_resets [OF M]
  show ?case
  proof (cases "childMenu M")
    case None
    let ?s2 = "s\<lparr>menus := (menus s)[this := M]\<rparr>"
    from "1.prems" lt M None have s': "s' = closeTail this ?s2"
      by (subst (asm) onCloseRequest.simps) simp
    have a: "resetsAll s ?s2" using h lt by (auto simp: resetsAll_def nth_update_cases)
    have "preClosed (menus ?s2 ! this)" using h None lt by (simp add: preClosed_def)
    then have "isClosed (menus s' ! this)" unfolding s' using lt
      by (intro closeTail_closed) simp_all
    moreover have "resetsAll s s'" unfolding s'
      by (rule resetsAll_trans [OF a closeTail_resetsAll])
    ultimately show ?thesis using lt by simp
  next
    case (Some c)
    let ?s2 = "s\<lparr>menus := (menus s)[this := M\<lparr>childIndex := -1, childMenu := None\<rparr>]\<rparr>"
    let ?s3 = "modify c (\<lambda>C. C\<lparr>parentMenu := None\<rparr>) ?s2"
    from "1.prems" lt M Some obtain s4 where
      s4: "onCloseRequest ?s3 c = Inr s4" and s': "s' = closeTail this s4"
      by (subst (asm) onCloseRequest.simps) (auto split: sum.splits)
    from "1.IH" [OF lt M Some s4] have ih: "resetsAll ?s3 s4" by simp
    have a: "resetsAll s ?s2" using h lt
      by (auto simp: resetsAll_def nth_update_cases resets_def)
    have b: "resetsAll ?s2 ?s3" by (rule resetsAll_modify) (simp add: resets_def)
    have len: "length (menus s4) = length (menus s)" using ih by (simp add: resetsAll_def)
    have "preClosed (menus ?s3 ! this)" using h lt
      by (simp add: preClosed_def nth_update_cases)
    then have "preClosed (menus s4 ! this)" using lt
      by (intro resetsAll_preClosed [OF ih]) simp_all
    then have "isClosed (menus s' ! this)" unfolding s' using lt len
      by (intro closeTail_closed) simp_all
    moreover have "resetsAll s s'" unfolding s'
      by (rule resetsAll_trans [OF a resetsAll_trans [OF b resetsAll_trans [OF ih closeTail_resetsAll]]])
    ultimately show ?thesis using lt by simp
  qed
qed

lemma isClosed_noop:
  assumes "this < length (menus s)" "isClosed (menus s ! this)"
  shows "onCloseRequest s this = Inr s"
proof -
  have h: "closeHead (menus s ! this) = Inr (menus s ! this)"
    using assms(2)
    by (simp add: closeHead_def isClosed_def cancelOpenTimer_def cancelCloseTimer_def
        setActiveIndex_def)
  have t: "closeTail this s = s"
    using assms by (simp add: closeTail_def isClosed_def)
  show ?thesis using assms h t
    by (subst onCloseRequest.simps) (simp add: isClosed_def)
qed

lemma close_idempotent:
  assumes "close this s = Inr s'"
  shows "close this s' = Inr s'"
proof -
  from assms have "onCloseRequest s this = Inr s'" by (simp add: close_def)
  from onCloseRequest_post [OF this]
  have "isClosed (menus s' ! this)" "this < length (menus s')"
    by (simp_all add: resetsAll_def)
  then show ?thesis unfolding close_def by (intro isClosed_noop)
qed

lemma closeHead_ok:
  assumes "menuOk M"
  shows "\<exists>M'. closeHead M = Inr M' \<and> menuOk M' \<and> items M' = items M \<and>
     childMenu M' = childMenu M \<and> childIndex M' = childIndex M \<and>
     parentMenu M' = parentMenu M \<and> parent M' = parent M \<and> isAttached M' = isAttached M \<and>
     style M' = style M \<and>
     openTimerID M' = 0 \<and> closeTimerID M' = 0 \<and> activeIndex M' = -1"
proof -
  let ?C = "cancelCloseTimer (cancelOpenTimer M)"
  have ok: "menuOk ?C" using assms
    by (auto simp: menuOk_def selectionOk_def cancelOpenTimer_def cancelCloseTimer_def)
  obtain ns where ns: "setActiveIndex (-1) ?C = Inr (?C\<lparr>nodes := ns, activeIndex := coerceIndex ?C (-1)\<rparr>)"
      "length ns = length (nodes ?C)"
    using setActiveIndex_ok [OF ok, of "-1"] by blast
  have "menuOk (?C\<lparr>nodes := ns, activeIndex := coerceIndex ?C (-1)\<rparr>)"
    using ok ns(2) by (simp add: menuOk_def selectionOk_def)
  then show ?thesis using ns
    by (simp add: closeHead_def cancelOpenTimer_def cancelCloseTimer_def)
qed

subsection \<open>Triggering an item\<close>

text \<open>\<open>downFrom s m cs\<close>: the menus \<open>cs\<close> are the open descendants of \<open>m\<close>, each the open
  child of the one before, the last without an open child. \<open>shownMenu s m\<close>: the menu is
  mounted as a top-level overlay (as \<^verbatim>\<open>open\<close> and \<^verbatim>\<open>openSubmenu\<close> mount it), its item and
  node sequences correspond and its active index is valid.\<close>

fun downFrom :: "state \<Rightarrow> ref \<Rightarrow> ref list \<Rightarrow> bool" where
  "downFrom s m [] \<longleftrightarrow> childMenu (menus s ! m) = None"
| "downFrom s m (c # cs) \<longleftrightarrow> childMenu (menus s ! m) = Some c \<and> downFrom s c cs"

definition shownMenu :: "state \<Rightarrow> ref \<Rightarrow> bool" where
  "shownMenu s m \<longleftrightarrow>
     m < length (menus s) \<and> menuOk (menus s ! m) \<and> parent (menus s ! m) = None \<and>
     isAttached (menus s ! m)"

lemma downFrom_cong:
  "(\<And>x. x \<in> set (m # cs) \<Longrightarrow> childMenu (menus s' ! x) = childMenu (menus s ! x)) \<Longrightarrow>
   downFrom s' m cs = downFrom s m cs"
  by (induction cs arbitrary: m) auto

lemma closeTail_root:
  assumes "m < length (menus s)" "parentMenu (menus s ! m) = None"
    "parent (menus s ! m) = None" "isAttached (menus s ! m)"
  shows "closeTail m s = emit m Closed (modify m detach s)"
  using assms by (simp add: closeTail_def)

lemma closeChain:
  assumes "distinct (m # cs)" "\<forall>x \<in> set (m # cs). shownMenu s x" "downFrom s m cs"
    "parentMenu (menus s ! m) = None"
  shows "\<exists>s'. onCloseRequest s m = Inr s' \<and>
     emitted s' = emitted s @ map (\<lambda>x. (x, Closed)) (rev (m # cs)) \<and>
     (\<forall>x \<in> set (m # cs). isClosed (menus s' ! x)) \<and>
     (\<forall>x. x \<notin> set (m # cs) \<longrightarrow> menus s' ! x = menus s ! x) \<and>
     resetsAll s s'"
  using assms
proof (induction cs arbitrary: s m)
  case Nil
  then have lt: "m < length (menus s)" and sh: "shownMenu s m" by (simp_all add: shownMenu_def)
  from sh obtain M where M: "closeHead (menus s ! m) = Inr M" "menuOk M"
    "childMenu M = childMenu (menus s ! m)" "parentMenu M = parentMenu (menus s ! m)"
    "parent M = parent (menus s ! m)" "isAttached M = isAttached (menus s ! m)"
    "openTimerID M = 0" "closeTimerID M = 0" "activeIndex M = -1"
    using closeHead_ok [of "menus s ! m"] by (auto simp: shownMenu_def)
  let ?s2 = "s\<lparr>menus := (menus s)[m := M]\<rparr>"
  have c: "childMenu M = None" using Nil.prems M by simp
  have t: "closeTail m ?s2 = emit m Closed (modify m detach ?s2)"
    using lt M Nil.prems sh by (intro closeTail_root) (simp_all add: shownMenu_def)
  have r: "onCloseRequest s m = Inr (closeTail m ?s2)"
    using lt M(1) c by (subst onCloseRequest.simps) simp
  have rs: "resetsAll s (closeTail m ?s2)"
    using onCloseRequest_post [OF r] by simp
  show ?case using r t lt M c Nil.prems sh rs
    by (auto simp: isClosed_def detach_def shownMenu_def)
next
  case (Cons c cs)
  then have lt: "m < length (menus s)" and sh: "shownMenu s m" by (simp_all add: shownMenu_def)
  from Cons.prems have ne: "c \<noteq> m" "m \<notin> set cs" "c \<notin> set cs" "distinct cs" by auto
  from Cons.prems have ltc: "c < length (menus s)" by (simp add: shownMenu_def)
  from sh obtain M where M: "closeHead (menus s ! m) = Inr M" "menuOk M"
    "childMenu M = childMenu (menus s ! m)" "parentMenu M = parentMenu (menus s ! m)"
    "parent M = parent (menus s ! m)" "isAttached M = isAttached (menus s ! m)"
    "openTimerID M = 0" "closeTimerID M = 0" "activeIndex M = -1"
    using closeHead_ok [of "menus s ! m"] by (auto simp: shownMenu_def)
  let ?s2 = "s\<lparr>menus := (menus s)[m := M\<lparr>childIndex := -1, childMenu := None\<rparr>]\<rparr>"
  let ?s3 = "modify c (\<lambda>C. C\<lparr>parentMenu := None\<rparr>) ?s2"
  have ch: "childMenu M = Some c" using Cons.prems M by simp
  have nth3: "\<And>x. x < length (menus s) \<Longrightarrow> menus ?s3 ! x =
      (if x = c then (menus s ! c)\<lparr>parentMenu := None\<rparr>
       else if x = m then M\<lparr>childIndex := -1, childMenu := None\<rparr> else menus s ! x)"
    using ne lt ltc by (auto simp: nth_update_cases)
  have p1: "distinct (c # cs)" using Cons.prems by simp
  have p2: "\<forall>x \<in> set (c # cs). shownMenu ?s3 x"
  proof
    fix x assume x: "x \<in> set (c # cs)"
    with Cons.prems have sx: "shownMenu s x" by auto
    then have ltx: "x < length (menus s)" by (simp add: shownMenu_def)
    from x ne have "x \<noteq> m" by auto
    with nth3 [OF ltx] have "menus ?s3 ! x =
        (if x = c then (menus s ! c)\<lparr>parentMenu := None\<rparr> else menus s ! x)" by simp
    moreover have "length (menus ?s3) = length (menus s)" by simp
    ultimately show "shownMenu ?s3 x" using sx unfolding shownMenu_def
      by (auto simp: menuOk_def selectionOk_def)
  qed
  have "downFrom s c cs" using Cons.prems by simp
  moreover have "downFrom ?s3 c cs = downFrom s c cs"
  proof (rule downFrom_cong)
    fix x assume x: "x \<in> set (c # cs)"
    with Cons.prems have ltx: "x < length (menus s)" by (auto simp: shownMenu_def)
    from x ne have "x \<noteq> m" by auto
    with nth3 [OF ltx] show "childMenu (menus ?s3 ! x) = childMenu (menus s ! x)" by simp
  qed
  ultimately have p3: "downFrom ?s3 c cs" by simp
  have p4: "parentMenu (menus ?s3 ! c) = None" using nth3 [OF ltc] by simp
  from Cons.IH [OF p1 p2 p3 p4] obtain s4 where s4:
    "onCloseRequest ?s3 c = Inr s4"
    "emitted s4 = emitted ?s3 @ map (\<lambda>x. (x, Closed)) (rev (c # cs))"
    "\<forall>x \<in> set (c # cs). isClosed (menus s4 ! x)"
    "\<forall>x. x \<notin> set (c # cs) \<longrightarrow> menus s4 ! x = menus ?s3 ! x"
    "resetsAll ?s3 s4" by blast
  have len4: "length (menus s4) = length (menus s)" using s4(5) by (simp add: resetsAll_def)
  have "m \<notin> set (c # cs)" using ne by simp
  with s4(4) have "menus s4 ! m = menus ?s3 ! m" by blast
  with nth3 [OF lt] ne have m4: "menus s4 ! m = M\<lparr>childIndex := -1, childMenu := None\<rparr>"
    by simp
  have t: "closeTail m s4 = emit m Closed (modify m detach s4)"
    using lt len4 m4 M Cons.prems sh by (intro closeTail_root) (simp_all add: shownMenu_def)
  have r: "onCloseRequest s m = Inr (closeTail m s4)"
    using lt M(1) ch s4(1) by (subst onCloseRequest.simps) simp
  have rs: "resetsAll s (closeTail m s4)"
    using onCloseRequest_post [OF r] by simp
  have e: "emitted (closeTail m s4) = emitted s @ map (\<lambda>x. (x, Closed)) (rev (m # c # cs))"
    using t s4(2) by simp
  have cl: "\<forall>x \<in> set (m # c # cs). isClosed (menus (closeTail m s4) ! x)"
  proof
    fix x assume x: "x \<in> set (m # c # cs)"
    show "isClosed (menus (closeTail m s4) ! x)"
    proof (cases "x = m")
      case True
      then show ?thesis using t m4 M lt len4 Cons.prems sh
        by (simp add: isClosed_def detach_def shownMenu_def)
    next
      case False
      with x have "x \<in> set (c # cs)" by simp
      with s4(3) have "isClosed (menus s4 ! x)" by blast
      then show ?thesis using t False by simp
    qed
  qed
  have fr: "\<forall>x. x \<notin> set (m # c # cs) \<longrightarrow> menus (closeTail m s4) ! x = menus s ! x"
  proof (intro allI impI)
    fix x assume x: "x \<notin> set (m # c # cs)"
    then have "x \<notin> set (c # cs)" by simp
    with s4(4) have "menus s4 ! x = menus ?s3 ! x" by blast
    also have "\<dots> = menus s ! x" using x by simp
    finally show "menus (closeTail m s4) ! x = menus s ! x" using t x by simp
  qed
  show ?case using r e cl fr rs by blast
qed

text \<open>\<open>upFrom s m ps\<close>: the menus \<open>ps\<close> are the ancestors of \<open>m\<close>, each the parent menu of
  the one before, the last without a parent menu (the root).\<close>

fun upFrom :: "state \<Rightarrow> ref \<Rightarrow> ref list \<Rightarrow> bool" where
  "upFrom s m [] \<longleftrightarrow> parentMenu (menus s ! m) = None"
| "upFrom s m (p # ps) \<longleftrightarrow> parentMenu (menus s ! m) = Some p \<and> upFrom s p ps"

lemma upFrom_menus: "menus s' = menus s \<Longrightarrow> upFrom s' m ps = upFrom s m ps"
  by (induction ps arbitrary: m) auto

lemma upFrom_last: "upFrom s m ps \<Longrightarrow> parentMenu (menus s ! last (m # ps)) = None"
  by (induction ps arbitrary: m) auto

definition emitAll :: "(ref \<times> signal) list \<Rightarrow> state \<Rightarrow> state" where
  "emitAll l s = s\<lparr>emitted := emitted s @ l\<rparr>"

lemma menus_emitAll [simp]: "menus (emitAll l s) = menus s"
  by (simp add: emitAll_def)

lemma emitted_emitAll [simp]: "emitted (emitAll l s) = emitted s @ l"
  by (simp add: emitAll_def)

lemma emitAll_emit: "emitAll l (emit m g s) = emitAll ((m, g) # l) s"
  by (simp add: emitAll_def emit_def)

lemma emit_emitAll: "emit m g s = emitAll [(m, g)] s"
  by (simp add: emitAll_def emit_def)

lemma triggerLoop_path:
  assumes "\<forall>x \<in> set (m # ps). x < length (menus s)" "upFrom s m ps"
  shows "triggerLoop s m item =
     Some (Inr (emitAll (map (\<lambda>x. (x, Triggered item)) (m # ps)) s, last (m # ps)))"
  using assms
proof (induction ps arbitrary: s m)
  case Nil
  then show ?case by (subst triggerLoop.simps) (simp add: emit_emitAll)
next
  case (Cons p ps)
  have a: "\<forall>x \<in> set (p # ps). x < length (menus (emit m (Triggered item) s))"
    using Cons.prems by simp
  have b: "upFrom (emit m (Triggered item) s) p ps"
    using Cons.prems upFrom_menus [of "emit m (Triggered item) s" s p ps] by simp
  show ?case using Cons.prems Cons.IH [OF a b]
    by (subst triggerLoop.simps) (simp add: emitAll_emit)
qed

lemma hd_rev_chain: "hd (rev ups @ m # below) = last (m # ups)"
  by (cases ups rule: rev_cases) (simp_all add: hd_append)

lemma shownMenu_emitAll [simp]: "shownMenu (emitAll l s) x = shownMenu s x"
  by (simp add: shownMenu_def)

lemma downFrom_menus: "menus s' = menus s \<Longrightarrow> downFrom s' m cs = downFrom s m cs"
  by (induction cs arbitrary: m) auto

text \<open>How many times \<open>m\<close> emitted \<^verbatim>\<open>closed\<close> between the stores \<open>s\<close> and \<open>s'\<close>.\<close>

definition closedCount :: "ref \<Rightarrow> state \<Rightarrow> state \<Rightarrow> nat" where
  "closedCount m s s' =
     length (filter (\<lambda>e. e = (m, Closed)) (drop (length (emitted s)) (emitted s')))"

lemma count_distinct:
  "distinct xs \<Longrightarrow> x \<in> set xs \<Longrightarrow> length (filter (\<lambda>e. e = (x, g)) (map (\<lambda>y. (y, g)) xs)) = 1"
proof (induction xs)
  case Nil
  then show ?case by simp
next
  case (Cons a xs)
  show ?case
  proof (cases "a = x")
    case True
    with Cons.prems have "x \<notin> set xs" by simp
    then have "filter (\<lambda>e. e = (x, g)) (map (\<lambda>y. (y, g)) xs) = []"
      by (auto simp: filter_empty_conv)
    with True show ?thesis by simp
  next
    case False
    with Cons show ?thesis by simp
  qed
qed

text \<open>\<^verbatim>\<open>_triggerItem\<close> in an open chain (the ancestors \<open>ups\<close> of \<open>m\<close> up to the root, and the
  open descendants \<open>below\<close> of \<open>m\<close>, linked by the child pointers from the root down): it
  returns; it emits \<^verbatim>\<open>triggered\<close> with the item on \<open>m\<close> and then on each ancestor in parent
  order up to the root, then closes the chain from the root: every menu of the chain ends
  closed, every menu of the chain emits \<^verbatim>\<open>closed\<close> once, the deepest first and the root
  last, and no other menu changes.\<close>

lemma triggerItem_cascade:
  assumes "distinct (rev ups @ m # below)"
    and "\<forall>x \<in> set (rev ups @ m # below). shownMenu s x"
    and "upFrom s m ups"
    and "downFrom s (hd (rev ups @ m # below)) (tl (rev ups @ m # below))"
  shows "\<exists>s'. triggerItem m item s = Some (Inr s') \<and>
     emitted s' = emitted s @ map (\<lambda>x. (x, Triggered item)) (m # ups) @
                  map (\<lambda>x. (x, Closed)) (rev below @ m # ups) \<and>
     closedCount (last (m # ups)) s s' = 1 \<and>
     (\<forall>x \<in> set (rev ups @ m # below). isClosed (menus s' ! x)) \<and>
     (\<forall>x. x \<notin> set (rev ups @ m # below) \<longrightarrow> menus s' ! x = menus s ! x)"
proof -
  let ?ch = "rev ups @ m # below"
  let ?r = "last (m # ups)"
  let ?T = "map (\<lambda>x. (x, Triggered item)) (m # ups)"
  let ?s1 = "emitAll ?T s"
  have lt: "\<forall>x \<in> set (m # ups). x < length (menus s)"
    using assms(2) by (auto simp: shownMenu_def)
  have loop: "triggerLoop s m item = Some (Inr (?s1, ?r))"
    by (rule triggerLoop_path [OF lt assms(3)])
  have hd: "hd ?ch = ?r" by (rule hd_rev_chain)
  have ne: "?ch \<noteq> []" by simp
  have chain: "?ch = ?r # tl ?ch" using hd ne by (metis list.collapse)
  have d: "distinct (?r # tl ?ch)" using assms(1) chain by simp
  have sh: "\<forall>x \<in> set (?r # tl ?ch). shownMenu ?s1 x"
    using assms(2) chain by (metis shownMenu_emitAll)
  have dn: "downFrom ?s1 ?r (tl ?ch)"
    using assms(4) hd downFrom_menus [of ?s1 s ?r "tl ?ch"] by simp
  have pr: "parentMenu (menus ?s1 ! ?r) = None"
    using upFrom_last [OF assms(3)] by simp
  from closeChain [OF d sh dn pr] obtain s' where s':
    "onCloseRequest ?s1 ?r = Inr s'"
    "emitted s' = emitted ?s1 @ map (\<lambda>x. (x, Closed)) (rev (?r # tl ?ch))"
    "\<forall>x \<in> set (?r # tl ?ch). isClosed (menus s' ! x)"
    "\<forall>x. x \<notin> set (?r # tl ?ch) \<longrightarrow> menus s' ! x = menus ?s1 ! x"
    by blast
  have t: "triggerItem m item s = Some (Inr s')"
    using loop s'(1) by (simp add: triggerItem_def close_def)
  have rv: "rev (?r # tl ?ch) = rev below @ m # ups" using chain by (metis rev_append rev_rev_ident rev.simps(2) append_Cons append_Nil append_assoc)
  from s'(2) have "emitted s' = emitted ?s1 @ map (\<lambda>x. (x, Closed)) (rev below @ m # ups)"
    by (simp only: rv)
  then have e: "emitted s' = emitted s @ ?T @ map (\<lambda>x. (x, Closed)) (rev below @ m # ups)"
    by simp
  have rin: "?r \<in> set (rev below @ m # ups)" by (cases ups rule: rev_cases) auto
  have dr: "distinct (rev below @ m # ups)" using assms(1) by (metis distinct_rev rv d)
  have cnt: "closedCount ?r s s' = 1"
    using e count_distinct [OF dr rin, of Closed] by (simp add: closedCount_def)
  have cl: "\<forall>x \<in> set ?ch. isClosed (menus s' ! x)" using s'(3) chain by metis
  have fr: "\<forall>x. x \<notin> set ?ch \<longrightarrow> menus s' ! x = menus s ! x"
    using s'(4) chain by (metis menus_emitAll)
  show ?thesis using t e cnt cl fr by blast
qed

text \<open>The events that trigger the item \<open>item\<close> of the menu \<open>m\<close>: a release of the left
  button over the node of a selectable item that is not a submenu, and Enter on a menu with
  no open child whose active item is selectable and not a submenu.\<close>

definition triggers :: "Dom \<Rightarrow> ref \<Rightarrow> Event \<Rightarrow> state \<Rightarrow> MenuItem \<Rightarrow> bool" where
  "triggers env m event s item \<longleftrightarrow>
     type item \<noteq> Submenu \<and> isSelectable item \<and>
     (case event of
        MouseUp e \<Rightarrow>
          button e = 0 \<and>
          vec_at (items (menus s ! m))
            (findIndex (nodes (menus s ! m)) (\<lambda>k. hitTestItem env m k (clientX e) (clientY e)))
            = Some item
      | KeyDown e \<Rightarrow>
          keyCode e = 13 \<and> childMenu (menus s ! m) = None \<and> activeItem (menus s ! m) = Some item
      | _ \<Rightarrow> False)"

text \<open>What the handlers do before they call \<^verbatim>\<open>_triggerItem\<close> (the selection is set and
  the timers are cancelled) changes neither the signals nor the links, and leaves the menu
  displayed and valid.\<close>

definition sameChain :: "state \<Rightarrow> state \<Rightarrow> ref \<Rightarrow> bool" where
  "sameChain s s1 m \<longleftrightarrow>
     emitted s1 = emitted s \<and> length (menus s1) = length (menus s) \<and>
     (\<forall>x. x \<noteq> m \<longrightarrow> menus s1 ! x = menus s ! x) \<and>
     childMenu (menus s1 ! m) = childMenu (menus s ! m) \<and>
     parentMenu (menus s1 ! m) = parentMenu (menus s ! m) \<and>
     (shownMenu s m \<longrightarrow> shownMenu s1 m)"

lemma upFrom_cong:
  "(\<And>x. parentMenu (menus s' ! x) = parentMenu (menus s ! x)) \<Longrightarrow>
   upFrom s' m ps = upFrom s m ps"
  by (induction ps arbitrary: m) auto

lemma sameChain_links:
  assumes "sameChain s s1 m"
  shows "childMenu (menus s1 ! x) = childMenu (menus s ! x)"
    "parentMenu (menus s1 ! x) = parentMenu (menus s ! x)"
    "shownMenu s x \<Longrightarrow> shownMenu s1 x"
  using assms by (cases "x = m"; simp add: sameChain_def shownMenu_def)+

lemma sameChain_cancelTimers:
  assumes "sameChain s s0 m" "m < length (menus s)"
  shows "sameChain s (modify m cancelTimers s0) m"
  using assms
  by (auto simp: sameChain_def shownMenu_def cancelTimers_def cancelOpenTimer_def
      cancelCloseTimer_def menuOk_def selectionOk_def)

lemma sameChain_refl: "sameChain s s m"
  by (simp add: sameChain_def)

lemma triggers_step:
  assumes "triggers env m event s item" "shownMenu s m"
  shows "\<exists>s1. handleEvent env m event s = triggerItem m item s1 \<and> sameChain s s1 m"
proof (cases event)
  case (MouseUp e)
  let ?M = "menus s ! m"
  let ?i = "findIndex (nodes ?M) (\<lambda>k. hitTestItem env m k (clientX e) (clientY e))"
  from assms(2) have lt: "m < length (menus s)" and ok: "menuOk ?M"
    by (simp_all add: shownMenu_def)
  from assms(1) MouseUp have b: "button e = 0" and it: "vec_at (items ?M) ?i = Some item"
    and sel: "isSelectable item" and ty: "type item \<noteq> Submenu"
    by (simp_all add: triggers_def)
  from it have i: "0 \<le> ?i" "?i < int (length (items ?M))" "items ?M ! nat ?i = item"
    by (auto simp: vec_at_def split: if_splits)
  with sel have ci: "coerceIndex ?M (of_int ?i) = ?i" by (simp add: coerceIndex_def)
  from setActiveIndex_ok [OF ok, of "of_int ?i"] ci obtain ns where
    st: "setActiveIndex (of_int ?i) ?M = Inr (?M\<lparr>nodes := ns, activeIndex := ?i\<rparr>)"
    and ln: "length ns = length (nodes ?M)" by auto
  let ?M' = "?M\<lparr>nodes := ns, activeIndex := ?i\<rparr>"
  let ?s0 = "s\<lparr>menus := (menus s)[m := ?M']\<rparr>"
  have on: "onMenu m (setActiveIndex (of_int ?i)) s = Inr ?s0" using lt st by (simp add: onMenu_def)
  have ai: "activeItem (menus ?s0 ! m) = Some item"
    using lt i by (auto simp: activeItem_def vec_at_def Let_def)
  have ok': "menuOk ?M'" using ok ln i sel by (auto simp: menuOk_def selectionOk_def)
  have s0: "sameChain s ?s0 m"
    using lt ok' assms(2) by (auto simp: sameChain_def shownMenu_def)
  have "handleEvent env m event s = triggerItem m item (modify m cancelTimers ?s0)"
    using MouseUp lt b on ai ty by (simp add: handleEvent_def evtMouseUp_def Let_def)
  moreover have "sameChain s (modify m cancelTimers ?s0) m"
    using s0 lt by (rule sameChain_cancelTimers)
  ultimately show ?thesis by blast
next
  case (KeyDown e)
  from assms(2) have lt: "m < length (menus s)" by (simp add: shownMenu_def)
  from assms(1) KeyDown have k: "keyCode e = 13" "childMenu (menus s ! m) = None"
    "activeItem (menus s ! m) = Some item" and ty: "type item \<noteq> Submenu"
    by (simp_all add: triggers_def)
  have "handleEvent env m event s = triggerItem m item (modify m cancelTimers s)"
    using KeyDown lt k ty by (simp add: handleEvent_def evtKeyDown_def Let_def)
  moreover have "sameChain s (modify m cancelTimers s) m"
    using sameChain_refl lt by (rule sameChain_cancelTimers)
  ultimately show ?thesis by blast
qed (use assms(1) in \<open>simp_all add: triggers_def\<close>)

text \<open>Claim C1: in an open chain (the ancestors \<open>ups\<close> of \<open>m\<close> up to the root, and the open
  descendants \<open>below\<close> of \<open>m\<close>, linked by the child pointers from the root down), an event
  that triggers an item of \<open>m\<close> that is selectable and not a submenu (a release of the left
  button over its node, or Enter while it is active) is handled to the end; \<^verbatim>\<open>triggered\<close> is
  emitted with that item on \<open>m\<close> and then on each ancestor in parent order up to the root,
  then the chain is closed from the root: every menu of the chain ends closed, every menu of
  the chain emits \<^verbatim>\<open>closed\<close> once, the deepest first and the root last (so the root emits
  exactly one), and no other menu changes.\<close>

theorem C1_trigger_cascade:
  assumes "distinct (rev ups @ m # below)"
    and "\<forall>x \<in> set (rev ups @ m # below). shownMenu s x"
    and "upFrom s m ups"
    and "downFrom s (hd (rev ups @ m # below)) (tl (rev ups @ m # below))"
    and "triggers env m event s item"
  shows "\<exists>s'. handleEvent env m event s = Some (Inr s') \<and>
     emitted s' = emitted s @ map (\<lambda>x. (x, Triggered item)) (m # ups) @
                  map (\<lambda>x. (x, Closed)) (rev below @ m # ups) \<and>
     closedCount (last (m # ups)) s s' = 1 \<and>
     (\<forall>x \<in> set (rev ups @ m # below). isClosed (menus s' ! x)) \<and>
     (\<forall>x. x \<notin> set (rev ups @ m # below) \<longrightarrow> menus s' ! x = menus s ! x)"
proof -
  let ?ch = "rev ups @ m # below"
  from assms(2) have sm: "shownMenu s m" by simp
  from triggers_step [OF assms(5) sm] obtain s1 where
    h: "handleEvent env m event s = triggerItem m item s1" and sc: "sameChain s s1 m" by blast
  note l = sameChain_links [OF sc]
  have a2: "\<forall>x \<in> set ?ch. shownMenu s1 x" using assms(2) l(3) by blast
  have a3: "upFrom s1 m ups" using assms(3) upFrom_cong [of s1 s m ups] l(2) by simp
  have a4: "downFrom s1 (hd ?ch) (tl ?ch)"
    using assms(4) downFrom_cong [of "hd ?ch" "tl ?ch" s1 s] l(1) by simp
  from triggerItem_cascade [OF assms(1) a2 a3 a4, of item] obtain s' where
    s': "triggerItem m item s1 = Some (Inr s')"
      "emitted s' = emitted s1 @ map (\<lambda>x. (x, Triggered item)) (m # ups) @
                  map (\<lambda>x. (x, Closed)) (rev below @ m # ups)"
      "closedCount (last (m # ups)) s1 s' = 1"
      "\<forall>x \<in> set ?ch. isClosed (menus s' ! x)"
      "\<forall>x. x \<notin> set ?ch \<longrightarrow> menus s' ! x = menus s1 ! x" by blast
  have e: "emitted s1 = emitted s" using sc by (simp add: sameChain_def)
  have c: "closedCount (last (m # ups)) s s' = 1" using s'(3) e by (simp add: closedCount_def)
  have f: "\<forall>x. x \<notin> set ?ch \<longrightarrow> menus s' ! x = menus s ! x"
  proof (intro allI impI)
    fix x assume x: "x \<notin> set ?ch"
    then have "x \<noteq> m" by auto
    then have "menus s1 ! x = menus s ! x" using sc by (simp add: sameChain_def)
    with s'(5) x show "menus s' ! x = menus s ! x" by simp
  qed
  show ?thesis using h s'(1,2,4) e c f by auto
qed

text \<open>The item \<^verbatim>\<open>new MenuItem({type: 'submenu', text: t, submenu: m})\<close>, a sequence of
  operations run from a store, an environment in which the pointer is over the first item
  node of every menu, and a release of the left button.\<close>

definition submenuItem :: "string \<Rightarrow> ref \<Rightarrow> MenuItem" where
  "submenuItem t m = MenuItem_default\<lparr>type := Submenu, text' := t, submenu := Some m\<rparr>"

fun performAll :: "Dom \<Rightarrow> operation list \<Rightarrow> state \<Rightarrow> (error + state) option" where
  "performAll env [] s = Some (Inr s)"
| "performAll env (op # ops) s =
     (case perform env op s of
        None \<Rightarrow> None
      | Some (Inl e) \<Rightarrow> Some (Inl e)
      | Some (Inr s') \<Rightarrow> performAll env ops s')"

text \<open>The store after a sequence of operations run from the empty store, when all of them
  return.\<close>

definition stateAfter :: "Dom \<Rightarrow> operation list \<Rightarrow> state" where
  "stateAfter env ops = (case performAll env ops initial of Some (Inr s) \<Rightarrow> s | _ \<Rightarrow> initial)"

definition hitFirst :: Dom where
  "hitFirst = (exampleDom 50 30)\<lparr>hitTestItem := (\<lambda>m i x y. i = 0)\<rparr>"

definition leftClick :: Event where
  "leftClick = MouseUp \<lparr>button = 0, clientX = 0, clientY = 0\<rparr>"

text \<open>A chain of three open menus: the root 0, its open submenu 1 and the submenu 2 of that,
  whose item \<^verbatim>\<open>Notes\<close> is active.\<close>

definition shownNew :: "MenuItem list \<Rightarrow> Menu" where
  "shownNew its =
     Menu_new\<lparr>items := its, nodes := map (\<lambda>i. createItemNode) its, isAttached := True\<rparr>"

definition chain3 :: state where
  "chain3 =
     \<lparr>menus =
        [(shownNew [submenuItem ''File'' 1])\<lparr>activeIndex := 0, childIndex := 0, childMenu := Some 1\<rparr>,
         (shownNew [submenuItem ''Recent'' 2])\<lparr>activeIndex := 0, childIndex := 0, childMenu := Some 2,
            parentMenu := Some 0\<rparr>,
         (shownNew [normalItem ''Notes''])\<lparr>activeIndex := 0, parentMenu := Some 1\<rparr>],
      emitted = [], timerCount = 0\<rparr>"

definition emittedBy :: "(error + state) option \<Rightarrow> (ref \<times> signal) list" where
  "emittedBy r = (case r of Some (Inr s) \<Rightarrow> emitted s | _ \<Rightarrow> [])"

text \<open>The key Enter.\<close>

definition enterKey :: Event where
  "enterKey = KeyDown \<lparr>keyCode = 13, charCode = CHR 0x0D\<rparr>"

text \<open>The statement of C1 for an item three levels deep, triggered by a release of the left
  button over it and by Enter.\<close>

theorem C1_witness:
  "emittedBy (handleEvent hitFirst 2 leftClick chain3) =
     [(2, Triggered (normalItem ''Notes'')), (1, Triggered (normalItem ''Notes'')),
      (0, Triggered (normalItem ''Notes'')), (2, Closed), (1, Closed), (0, Closed)] \<and>
   emittedBy (handleEvent hitFirst 2 enterKey chain3) =
     [(2, Triggered (normalItem ''Notes'')), (1, Triggered (normalItem ''Notes'')),
      (0, Triggered (normalItem ''Notes'')), (2, Closed), (1, Closed), (0, Closed)]"
proof -
  have d: "distinct (rev [1, 0] @ 2 # ([]::ref list))" by simp
  have sh: "\<forall>x \<in> set (rev [1, 0] @ 2 # []). shownMenu chain3 x" by code_simp
  have up: "upFrom chain3 2 [1, 0]" by code_simp
  have dn: "downFrom chain3 (hd (rev [1, 0] @ 2 # [])) (tl (rev [1, 0] @ 2 # []))" by code_simp
  have t1: "triggers hitFirst 2 leftClick chain3 (normalItem ''Notes'')" by code_simp
  have t2: "triggers hitFirst 2 enterKey chain3 (normalItem ''Notes'')" by code_simp
  have e: "emitted chain3 = []" by (simp add: chain3_def)
  show ?thesis
    using C1_trigger_cascade [OF d sh up dn t1] C1_trigger_cascade [OF d sh up dn t2] e
    by (auto simp: emittedBy_def)
qed

subsection \<open>Closing twice\<close>

text \<open>A menu that was never opened, with one item, which is active.\<close>

definition selectedState :: state where
  "selectedState =
     \<lparr>menus = [Menu_new\<lparr>items := [normalItem ''A''],
                 nodes := [classList_add ACTIVE_CLASS createItemNode], activeIndex := 0\<rparr>],
      emitted = [], timerCount = 0\<rparr>"

text \<open>A menu that was opened and closed, and whose item was made active afterwards.\<close>

definition closedRun :: "operation list" where
  "closedRun =
     [NewMenu, AddItem 0 (normalItem ''A''), Open 0 0 0 noOptions, Close 0, SetActiveIndex 0 0]"

text \<open>Claim C3, as stated, fails in its general part: a menu that is closed (it was never
  opened, or it was opened and closed) but has an active item, set through the public
  setter, is changed by \<^verbatim>\<open>close\<close>: its selection is reset and the active marker is removed
  from the node.\<close>

theorem C3_counterexample:
  "performAll (exampleDom 50 30) [NewMenu, AddItem 0 (normalItem ''A''), SetActiveIndex 0 0] initial
     = Some (Inr selectedState) \<and>
   \<not> isAttached (menus selectedState ! 0) \<and> parent (menus selectedState ! 0) = None \<and>
   childMenu (menus selectedState ! 0) = None \<and> parentMenu (menus selectedState ! 0) = None \<and>
   activeIndex (menus selectedState ! 0) = 0 \<and>
   close 0 selectedState =
     Inr (selectedState\<lparr>menus := [Menu_new\<lparr>items := [normalItem ''A''], nodes := [createItemNode]\<rparr>]\<rparr>) \<and>
   close 0 selectedState \<noteq> Inr selectedState \<and>
   performAll (exampleDom 50 30) closedRun initial
     = Some (Inr (stateAfter (exampleDom 50 30) closedRun)) \<and>
   emitted (stateAfter (exampleDom 50 30) closedRun) = [(0, Closed)] \<and>
   \<not> isAttached (menus (stateAfter (exampleDom 50 30) closedRun) ! 0) \<and>
   activeIndex (menus (stateAfter (exampleDom 50 30) closedRun) ! 0) = 0 \<and>
   close 0 (stateAfter (exampleDom 50 30) closedRun) \<noteq>
     Inr (stateAfter (exampleDom 50 30) closedRun)"
  by code_simp

text \<open>Claim C3, amended: if \<^verbatim>\<open>close\<close> returns, a second \<^verbatim>\<open>close\<close> at once returns the
  same store (the same fields of every menu and the same signals, so it emits nothing), and
  the first leaves the menu with no pending timer, no active item, no open child, no parent
  menu and not mounted; closing a menu that is in that state leaves the whole store
  unchanged and emits nothing.\<close>

theorem C3_close_twice:
  "(close this s = Inr s' \<longrightarrow> close this s' = Inr s' \<and> isClosed (menus s' ! this)) \<and>
   (this < length (menus s) \<and> isClosed (menus s ! this) \<longrightarrow> close this s = Inr s)"
proof (intro conjI impI)
  assume a: "close this s = Inr s'"
  from a show "close this s' = Inr s'" by (rule close_idempotent)
  from a show "isClosed (menus s' ! this)"
    using onCloseRequest_post [of s this s'] by (simp add: close_def)
next
  assume "this < length (menus s) \<and> isClosed (menus s ! this)"
  then show "close this s = Inr s" unfolding close_def by (intro isClosed_noop) simp_all
qed

text \<open>The statement of C3 for a displayed menu of one item.\<close>

definition shownState :: state where
  "shownState = \<lparr>menus = [shownNew [normalItem ''A'']], emitted = [], timerCount = 0\<rparr>"

definition hiddenState :: state where
  "hiddenState =
     \<lparr>menus = [Menu_new\<lparr>items := [normalItem ''A''], nodes := [createItemNode]\<rparr>],
      emitted = [(0, Closed)], timerCount = 0\<rparr>"

theorem C3_witness:
  "close 0 shownState = Inr hiddenState \<and> close 0 hiddenState = Inr hiddenState"
  using C3_close_twice [where this = 0 and s = shownState and s' = hiddenState]
    C3_close_twice [where this = 0 and s = hiddenState and s' = hiddenState]
  by (simp add: shownState_def hiddenState_def shownNew_def Menu_new_def close_def
      onCloseRequest.simps closeHead_def cancelOpenTimer_def cancelCloseTimer_def
      setActiveIndex_def closeTail_def Let_def emit_def modify_def detach_def isClosed_def)

subsection \<open>The steps of an operation\<close>

text \<open>A step on one menu that changes neither its items nor its links nor its parent, and
  keeps a menu valid (corresponding sequences, valid selection); and a step of the store
  made of such steps.\<close>

definition selStep :: "Menu \<Rightarrow> Menu \<Rightarrow> bool" where
  "selStep M M' \<longleftrightarrow>
     items M' = items M \<and> childMenu M' = childMenu M \<and> childIndex M' = childIndex M \<and>
     parentMenu M' = parentMenu M \<and> parent M' = parent M \<and> (menuOk M \<longrightarrow> menuOk M')"

lemma selStep_refl [simp]: "selStep M M"
  by (simp add: selStep_def)

lemma selStep_trans: "selStep A B \<Longrightarrow> selStep B C \<Longrightarrow> selStep A C"
  by (simp add: selStep_def)

definition localStep :: "state \<Rightarrow> state \<Rightarrow> bool" where
  "localStep s s' \<longleftrightarrow>
     length (menus s') = length (menus s) \<and>
     (\<forall>x < length (menus s). selStep (menus s ! x) (menus s' ! x))"

lemma localStep_refl [simp]: "localStep s s"
  by (simp add: localStep_def)

lemma localStep_trans: "localStep a b \<Longrightarrow> localStep b c \<Longrightarrow> localStep a c"
  unfolding localStep_def by (auto intro: selStep_trans)

lemma localStep_menus: "menus s' = menus s \<Longrightarrow> localStep s s'"
  by (simp add: localStep_def)

lemma localStep_modify: "(\<And>M. selStep M (f M)) \<Longrightarrow> localStep s (modify m f s)"
  by (auto simp: localStep_def nth_update_cases)

lemma localStep_onMenu:
  "onMenu m f s = Inr s' \<Longrightarrow> (\<And>M M'. f M = Inr M' \<Longrightarrow> selStep M M') \<Longrightarrow> localStep s s'"
  by (auto simp: onMenu_def localStep_def nth_update_cases split: if_splits sum.splits)

lemma setActiveIndex_shape:
  "setActiveIndex v M = Inr M' \<Longrightarrow> \<exists>ns. M' = M\<lparr>nodes := ns, activeIndex := coerceIndex M v\<rparr>"
proof -
  assume a: "setActiveIndex v M = Inr M'"
  show ?thesis
  proof (cases "activeIndex M = coerceIndex M v")
    case True
    with a have "M' = M" by (auto simp: setActiveIndex_def Let_def coerceIndex_def split: if_splits)
    with True have "M' = M\<lparr>nodes := nodes M, activeIndex := coerceIndex M v\<rparr>" by simp
    then show ?thesis by blast
  next
    case False
    with a show ?thesis
      by (auto simp: setActiveIndex_def Let_def coerceIndex_def split: if_splits sum.splits)
  qed
qed

lemma setActiveIndex_selStep: "setActiveIndex v M = Inr M' \<Longrightarrow> selStep M M'"
proof -
  assume a: "setActiveIndex v M = Inr M'"
  from setActiveIndex_shape [OF a] obtain ns where
    s: "M' = M\<lparr>nodes := ns, activeIndex := coerceIndex M v\<rparr>" by blast
  have "menuOk M \<Longrightarrow> menuOk M'"
  proof -
    assume ok: "menuOk M"
    from setActiveIndex_ok [OF ok, of v] a obtain ns' where
      "M' = M\<lparr>nodes := ns', activeIndex := coerceIndex M v\<rparr>" "length ns' = length (nodes M)"
      by auto
    then show "menuOk M'" using ok coerceIndex_ok [where M = M and ns = ns' and v = v]
      by (auto simp: menuOk_def)
  qed
  then show ?thesis using s by (simp add: selStep_def)
qed

lemma setActiveItem_selStep: "setActiveItem v M = Inr M' \<Longrightarrow> selStep M M'"
  by (simp add: setActiveItem_def setActiveIndex_selStep)

lemma firstSelectableLoop_selStep: "firstSelectableLoop M i = Inr M' \<Longrightarrow> selStep M M'"
proof (induction M i rule: firstSelectableLoop.induct)
  case (1 M i)
  from "1.prems" show ?case
    by (subst (asm) firstSelectableLoop.simps)
       (auto split: if_splits intro: setActiveIndex_selStep "1.IH")
qed

lemma nextSelectableLoop_selStep: "nextSelectableLoop M j i = Inr M' \<Longrightarrow> selStep M M'"
proof (induction M j i rule: nextSelectableLoop.induct)
  case (1 M j i)
  from "1.prems" show ?case
    by (subst (asm) nextSelectableLoop.simps)
       (auto simp: Let_def split: if_splits option.splits intro: setActiveIndex_selStep "1.IH")
qed

lemma prevSelectableLoop_selStep: "prevSelectableLoop M j i = Inr M' \<Longrightarrow> selStep M M'"
proof (induction M j i rule: prevSelectableLoop.induct)
  case (1 M j i)
  from "1.prems" show ?case
    by (subst (asm) prevSelectableLoop.simps)
       (auto simp: Let_def split: if_splits option.splits intro: setActiveIndex_selStep "1.IH")
qed

lemma nextMnemonicLoop_selStep: "nextMnemonicLoop M c j i = Inr M' \<Longrightarrow> selStep M M'"
proof (induction M c j i rule: nextMnemonicLoop.induct)
  case (1 M c j i)
  from "1.prems" show ?case
    by (subst (asm) nextMnemonicLoop.simps)
       (auto simp: Let_def split: if_splits option.splits intro: setActiveIndex_selStep "1.IH")
qed

lemma onUpdateRequest_selStep: "onUpdateRequest M = Inr M' \<Longrightarrow> selStep M M'"
proof -
  assume a: "onUpdateRequest M = Inr M'"
  then have s: "\<exists>ns. M' = M\<lparr>nodes := ns\<rparr>"
    by (auto simp: onUpdateRequest_def split: sum.splits)
  have "menuOk M \<Longrightarrow> menuOk M'"
  proof -
    assume ok: "menuOk M"
    from onUpdateRequest_ok [OF ok] a obtain ns where
      "M' = M\<lparr>nodes := ns\<rparr>" "length ns = length (nodes M)" by auto
    then show "menuOk M'" using ok by (auto simp: menuOk_def selectionOk_def)
  qed
  then show ?thesis using s by (auto simp: selStep_def)
qed

lemma selStep_fields:
  "selStep M (M\<lparr>openTimerID := a\<rparr>)" "selStep M (M\<lparr>closeTimerID := b\<rparr>)"
  "selStep M (M\<lparr>style := st\<rparr>)" "selStep M (M\<lparr>isAttached := att\<rparr>)"
  by (auto simp: selStep_def menuOk_def selectionOk_def)

lemma cancelTimers_selStep [simp]:
  "selStep M (cancelOpenTimer M)" "selStep M (cancelCloseTimer M)" "selStep M (cancelTimers M)"
  by (auto simp: selStep_def menuOk_def selectionOk_def cancelTimers_def cancelOpenTimer_def
      cancelCloseTimer_def)

lemma openRootMenu_selStep: "openRootMenu env x y fx fy M = Inr M' \<Longrightarrow> selStep M M'"
proof -
  assume a: "openRootMenu env x y fx fy M = Inr M'"
  then obtain M1 where u: "onUpdateRequest M = Inr M1"
    by (auto simp: openRootMenu_def split: sum.splits)
  from a u have "selStep M1 M'"
    by (auto simp: openRootMenu_def Let_def attach_def selStep_def menuOk_def selectionOk_def
        split: if_splits)
  with onUpdateRequest_selStep [OF u] show ?thesis by (rule selStep_trans)
qed

lemma open'_selStep: "open' env x y options M = Inr M' \<Longrightarrow> selStep M M'"
  by (auto simp: open'_def Let_def split: if_splits intro: openRootMenu_selStep)

lemma openSubmenu_selStep: "openSubmenu env n M = Inr M' \<Longrightarrow> selStep M M'"
proof -
  assume a: "openSubmenu env n M = Inr M'"
  then obtain M1 where u: "onUpdateRequest M = Inr M1"
    by (auto simp: openSubmenu_def split: sum.splits)
  from a u have "selStep M1 M'"
    by (auto simp: openSubmenu_def Let_def attach_def selStep_def menuOk_def selectionOk_def
        split: option.splits if_splits)
  with onUpdateRequest_selStep [OF u] show ?thesis by (rule selStep_trans)
qed

lemma activate_selStep:
  "activateFirstSelectable M = Inr M' \<Longrightarrow> selStep M M'"
  "activateNextSelectable M = Inr M' \<Longrightarrow> selStep M M'"
  "activatePrevSelectable M = Inr M' \<Longrightarrow> selStep M M'"
  "activateNextMnemonic M ch = Inr M' \<Longrightarrow> selStep M M'"
  by (auto simp: activateFirstSelectable_def activateNextSelectable_def
      activatePrevSelectable_def activateNextMnemonic_def Let_def
      intro: firstSelectableLoop_selStep nextSelectableLoop_selStep prevSelectableLoop_selStep
        nextMnemonicLoop_selStep)

lemma startTimer_localStep [simp]:
  "localStep s (startOpenTimer m s)" "localStep s (startCloseTimer m s)"
  by (auto simp: startOpenTimer_def startCloseTimer_def localStep_def nth_update_cases
      selStep_fields)

lemma emit_localStep [simp]: "localStep s (emit m g s)"
  by (simp add: localStep_def)

text \<open>What the two loops over the ancestors leave, when they end.\<close>

definition triggerLoop_post :: "state \<Rightarrow> ref \<Rightarrow> MenuItem \<Rightarrow> error + state \<times> ref \<Rightarrow> bool" where
  "triggerLoop_post s m item y \<longleftrightarrow>
     (case y of Inl e \<Rightarrow> True | Inr (s1, r) \<Rightarrow> menus s1 = menus s)"

lemma triggerLoop_menus:
  assumes "triggerLoop s m item = Some (Inr (s1, r))"
  shows "menus s1 = menus s"
proof -
  have "triggerLoop_post s m item (Inr (s1, r))"
  proof (rule triggerLoop.raw_induct [where P = triggerLoop_post, OF _ assms], goal_cases)
    case (1 f s menu item y)
    show ?case
    proof (cases "menu < length (menus s)")
      case False
      with 1(2) show ?thesis by (auto simp: triggerLoop_post_def)
    next
      case True
      show ?thesis
      proof (cases "parentMenu (menus s ! menu)")
        case None
        with True 1(2) show ?thesis by (auto simp: triggerLoop_post_def)
      next
        case (Some p)
        with True 1(2) have "f (emit menu (Triggered item) s) p item = Some y" by simp
        from 1(1) [OF this] show ?thesis
          by (auto simp: triggerLoop_post_def split: sum.splits)
      qed
    qed
  qed
  then show ?thesis by (simp add: triggerLoop_post_def)
qed

definition syncAncestors_post :: "state \<Rightarrow> ref option \<Rightarrow> error + state \<Rightarrow> bool" where
  "syncAncestors_post s menu y \<longleftrightarrow> (case y of Inl e \<Rightarrow> True | Inr s' \<Rightarrow> localStep s s')"

lemma syncAncestors_localStep:
  assumes "syncAncestors s menu = Some (Inr s')"
  shows "localStep s s'"
proof -
  have "syncAncestors_post s menu (Inr s')"
  proof (rule syncAncestors.raw_induct [where P = syncAncestors_post, OF _ assms], goal_cases)
    case (1 f s menu y)
    show ?case
    proof (cases menu)
      case None
      with 1(2) show ?thesis by (auto simp: syncAncestors_post_def)
    next
      case (Some m)
      show ?thesis
      proof (cases "onMenu m (\<lambda>M. setActiveIndex (real_of_int (childIndex M)) (cancelTimers M)) s")
        case (Inl e)
        with Some 1(2) show ?thesis by (auto simp: syncAncestors_post_def)
      next
        case (Inr s1)
        have a: "localStep s s1"
        proof (rule localStep_onMenu [OF Inr])
          fix M M' assume "setActiveIndex (real_of_int (childIndex M)) (cancelTimers M) = Inr M'"
          then have "selStep (cancelTimers M) M'" by (rule setActiveIndex_selStep)
          with cancelTimers_selStep(3) show "selStep M M'" by (rule selStep_trans)
        qed
        from Some Inr 1(2) have "f s1 (parentMenu (menus s1 ! m)) = Some y" by simp
        from 1(1) [OF this] a show ?thesis
          by (auto simp: syncAncestors_post_def split: sum.splits intro: localStep_trans)
      qed
    qed
  qed
  then show ?thesis by (simp add: syncAncestors_post_def)
qed

text \<open>A step that changes no link: the child and parent pointers of every menu stay, and
  a menu whose sequences correspond and whose selection is valid stays so.\<close>

definition quiet :: "Menu \<Rightarrow> Menu \<Rightarrow> bool" where
  "quiet M M' \<longleftrightarrow>
     childMenu M' = childMenu M \<and> childIndex M' = childIndex M \<and>
     parentMenu M' = parentMenu M \<and> (menuOk M \<longrightarrow> menuOk M')"

definition quietStep :: "state \<Rightarrow> state \<Rightarrow> bool" where
  "quietStep s s' \<longleftrightarrow>
     length (menus s') = length (menus s) \<and>
     (\<forall>x < length (menus s). quiet (menus s ! x) (menus s' ! x))"

lemma quietStep_refl [simp]: "quietStep s s"
  by (simp add: quietStep_def quiet_def)

lemma localStep_quietStep: "localStep s s' \<Longrightarrow> quietStep s s'"
  by (simp add: localStep_def quietStep_def quiet_def selStep_def)

lemma quietStep_trans: "quietStep a b \<Longrightarrow> quietStep b c \<Longrightarrow> quietStep a c"
  by (simp add: quietStep_def quiet_def)

text \<open>One operation on the menu \<open>this\<close>: local steps, then at most one change of the links
  (a close, the closing of the child of \<open>this\<close>, or, for the operations that can, the
  opening of a child of \<open>this\<close>), then steps that change no link.\<close>

definition linkChange :: "Dom \<Rightarrow> ref \<Rightarrow> bool \<Rightarrow> state \<Rightarrow> state \<Rightarrow> bool" where
  "linkChange env this mayOpen s1 s2 \<longleftrightarrow>
     s2 = s1 \<or> (\<exists>r. onCloseRequest s1 r = Inr s2) \<or> closeChildMenu this s1 = Inr s2 \<or>
     (mayOpen \<and> openChildMenu env this s1 = Inr s2)"

definition reaches :: "Dom \<Rightarrow> ref \<Rightarrow> bool \<Rightarrow> state \<Rightarrow> state \<Rightarrow> bool" where
  "reaches env this mayOpen s s' \<longleftrightarrow>
     (\<exists>s1 s2. localStep s s1 \<and> linkChange env this mayOpen s1 s2 \<and> quietStep s2 s')"

lemma reachesI:
  "localStep s s1 \<Longrightarrow> linkChange env this mayOpen s1 s2 \<Longrightarrow> quietStep s2 s' \<Longrightarrow>
   reaches env this mayOpen s s'"
  unfolding reaches_def by blast

lemma reaches_local: "localStep s s' \<Longrightarrow> reaches env this mayOpen s s'"
  by (rule reachesI [of s s' env this mayOpen s']) (simp_all add: linkChange_def)

lemma reaches_close:
  "localStep s s1 \<Longrightarrow> close r s1 = Inr s' \<Longrightarrow> reaches env this mayOpen s s'"
  by (rule reachesI [of s s1 env this mayOpen s']) (auto simp: linkChange_def close_def)

lemma reaches_closeChild:
  "localStep s s1 \<Longrightarrow> closeChildMenu this s1 = Inr s' \<Longrightarrow> reaches env this mayOpen s s'"
  by (rule reachesI [of s s1 env this mayOpen s']) (auto simp: linkChange_def)

lemma reaches_open:
  "localStep s s1 \<Longrightarrow> openChildMenu env this s1 = Inr s2 \<Longrightarrow> localStep s2 s' \<Longrightarrow>
   reaches env this True s s'"
  by (rule reachesI [of s s1 env this True s2]) (auto simp: linkChange_def localStep_quietStep)

lemma reaches_trigger:
  assumes "localStep s s1" "triggerItem this item s1 = Some (Inr s')"
  shows "reaches env this mayOpen s s'"
proof -
  from assms(2) obtain s2 r where l: "triggerLoop s1 this item = Some (Inr (s2, r))"
    and c: "close r s2 = Inr s'"
    by (auto simp: triggerItem_def split: option.splits sum.splits)
  have "localStep s1 s2" using triggerLoop_menus [OF l] by (rule localStep_menus)
  with assms(1) have "localStep s s2" by (rule localStep_trans)
  then show ?thesis using c by (rule reaches_close)
qed

lemma setter_localStep: "onMenu m (setActiveIndex v) s = Inr s' \<Longrightarrow> localStep s s'"
  by (erule localStep_onMenu) (rule setActiveIndex_selStep)

lemma cancelTimers_localStep [simp]:
  "localStep s (modify m cancelTimers s)" "localStep s (modify m cancelOpenTimer s)"
  "localStep s (modify m cancelCloseTimer s)"
  by (rule localStep_modify, simp)+

lemma evtMouseUp_reaches:
  assumes "evtMouseUp env this event s = Some (Inr s')"
  shows "reaches env this True s s'"
proof (cases "button event \<noteq> 0")
  case True
  with assms show ?thesis by (simp add: evtMouseUp_def reaches_local)
next
  case False
  let ?i = "findIndex (nodes (menus s ! this)) (\<lambda>k. hitTestItem env this k (clientX event) (clientY event))"
  from assms False obtain s1 where s1: "onMenu this (setActiveIndex (of_int ?i)) s = Inr s1"
    by (auto simp: evtMouseUp_def Let_def split: sum.splits)
  have l1: "localStep s s1" using s1 by (rule setter_localStep)
  show ?thesis
  proof (cases "activeItem (menus s1 ! this)")
    case None
    with assms False s1 have "s' = s1" by (simp add: evtMouseUp_def Let_def)
    with l1 show ?thesis by (simp add: reaches_local)
  next
    case (Some item)
    have l2: "localStep s (modify this cancelTimers s1)"
      by (rule localStep_trans [OF l1]) simp
    show ?thesis
    proof (cases "type item = Submenu")
      case True
      with assms False s1 Some have "openChildMenu env this (modify this cancelTimers s1) = Inr s'"
        by (simp add: evtMouseUp_def Let_def)
      with l2 show ?thesis by (rule reaches_open) simp
    next
      case nosub: False
      with assms False s1 Some have "triggerItem this item (modify this cancelTimers s1) = Some (Inr s')"
        by (simp add: evtMouseUp_def Let_def)
      with l2 show ?thesis by (rule reaches_trigger)
    qed
  qed
qed

lemma evtMouseMove_localStep:
  assumes "evtMouseMove env this event s = Some (Inr s')"
  shows "localStep s s'"
proof -
  let ?i = "findIndex (nodes (menus s ! this)) (\<lambda>k. hitTestItem env this k (clientX event) (clientY event))"
  show ?thesis
  proof (cases "?i = activeIndex (menus s ! this)")
    case True
    with assms show ?thesis by (simp add: evtMouseMove_def Let_def)
  next
    case False
    from assms False obtain s1 where s1: "onMenu this (setActiveIndex (of_int ?i)) s = Inr s1"
      by (auto simp: evtMouseMove_def Let_def split: sum.splits)
    from assms False s1 obtain s2 where s2: "syncAncestors s1 (parentMenu (menus s1 ! this)) = Some (Inr s2)"
      by (auto simp: evtMouseMove_def Let_def split: sum.splits option.splits)
    have l2: "localStep s s2"
      by (rule localStep_trans [OF setter_localStep [OF s1] syncAncestors_localStep [OF s2]])
    let ?s3 = "if childIndex (menus s2 ! this) \<noteq> -1 then startCloseTimer this s2 else s2"
    have l3: "localStep s2 (modify this cancelOpenTimer ?s3)"
      by (rule localStep_trans [of _ ?s3]) simp_all
    have l4: "localStep s2 (startOpenTimer this (modify this cancelOpenTimer ?s3))"
      by (rule localStep_trans [OF l3]) simp
    from assms False s1 s2 have "s' = modify this cancelTimers s2 \<or>
        s' = modify this cancelOpenTimer ?s3 \<or>
        s' = startOpenTimer this (modify this cancelOpenTimer ?s3)"
      by (auto simp: evtMouseMove_def Let_def split: if_splits option.splits)
    then have "localStep s2 s'" using l3 l4 by auto
    with l2 show ?thesis by (rule localStep_trans)
  qed
qed

lemma evtMouseLeave_localStep:
  assumes "evtMouseLeave env this event s = Inr s'"
  shows "localStep s s'"
proof -
  let ?s1 = "modify this cancelOpenTimer s"
  have l1: "localStep s ?s1" by simp
  show ?thesis
  proof (cases "childMenu (menus ?s1 ! this)")
    case None
    with assms have "onMenu this (setActiveIndex (-1)) ?s1 = Inr s'"
      by (simp add: evtMouseLeave_def Let_def)
    from localStep_trans [OF l1 setter_localStep [OF this]] show ?thesis .
  next
    case (Some c)
    show ?thesis
    proof (cases "hitTestMenu env c (clientX event) (clientY event)")
      case True
      with assms Some have "s' = modify this cancelCloseTimer ?s1"
        by (simp add: evtMouseLeave_def Let_def)
      then show ?thesis using localStep_trans [OF l1 cancelTimers_localStep(3)] by simp
    next
      case False
      with assms Some obtain s2 where s2: "onMenu this (setActiveIndex (-1)) ?s1 = Inr s2"
        and e: "s' = startCloseTimer this s2"
        by (auto simp: evtMouseLeave_def Let_def split: sum.splits)
      have "localStep s s2" by (rule localStep_trans [OF l1 setter_localStep [OF s2]])
      then show ?thesis unfolding e by (rule localStep_trans) simp
    qed
  qed
qed

lemma evtKeyPress_localStep:
  assumes "evtKeyPress this event s = Inr s'"
  shows "localStep s s'"
proof (cases "childMenu (menus s ! this) \<noteq> None")
  case True
  with assms show ?thesis by (simp add: evtKeyPress_def)
next
  case False
  with assms have "onMenu this (\<lambda>M. activateNextMnemonic M (charCode event)) s = Inr s'"
    by (simp add: evtKeyPress_def)
  then show ?thesis by (rule localStep_onMenu) (rule activate_selStep(4))
qed

lemma openThenActivate:
  assumes "localStep s s1" "openChildMenu env this s1 = Inr s2"
    and "(case childMenu (menus s2 ! this) of None \<Rightarrow> Some (Inr s2)
          | Some c \<Rightarrow> Some (onMenu c activateFirstSelectable s2)) = Some (Inr s')"
  shows "reaches env this True s s'"
proof (cases "childMenu (menus s2 ! this)")
  case None
  with assms(3) have "s' = s2" by simp
  with assms(1,2) show ?thesis by (auto intro: reaches_open)
next
  case (Some c)
  with assms(3) have "onMenu c activateFirstSelectable s2 = Inr s'" by simp
  then have "localStep s2 s'" by (rule localStep_onMenu) (rule activate_selStep(1))
  with assms(1,2) show ?thesis by (rule reaches_open)
qed

lemma evtKeyDown_reaches:
  assumes "evtKeyDown env this event s = Some (Inr s')"
  shows "reaches env this True s s'"
proof (cases "childMenu (menus s ! this) \<noteq> None")
  case True
  with assms show ?thesis by (simp add: evtKeyDown_def reaches_local)
next
  case leaf: False
  let ?kc = "keyCode event"
  let ?s1 = "modify this cancelTimers s"
  have l1: "localStep s ?s1" by simp
  consider "?kc = 13" | "?kc = 27" | "?kc = 37" | "?kc = 38" | "?kc = 39" | "?kc = 40"
    | "?kc \<notin> {13, 27, 37, 38, 39, 40}" by auto
  then show ?thesis
  proof cases
    case 1
    show ?thesis
    proof (cases "activeItem (menus s ! this)")
      case None
      with assms leaf 1 show ?thesis by (simp add: evtKeyDown_def reaches_local)
    next
      case (Some item)
      show ?thesis
      proof (cases "type item \<noteq> Submenu")
        case True
        with assms leaf 1 Some have "triggerItem this item ?s1 = Some (Inr s')"
          by (simp add: evtKeyDown_def Let_def)
        with l1 show ?thesis by (rule reaches_trigger)
      next
        case False
        with assms leaf 1 Some obtain s2 where s2: "openChildMenu env this ?s1 = Inr s2"
          by (auto simp: evtKeyDown_def Let_def split: sum.splits)
        with assms leaf 1 Some False have
          "(case childMenu (menus s2 ! this) of None \<Rightarrow> Some (Inr s2)
            | Some c \<Rightarrow> Some (onMenu c activateFirstSelectable s2)) = Some (Inr s')"
          by (simp add: evtKeyDown_def Let_def)
        with l1 s2 show ?thesis by (rule openThenActivate)
      qed
    qed
  next
    case 2
    with assms leaf have "close this s = Inr s'" by (simp add: evtKeyDown_def)
    then show ?thesis by (intro reaches_close [of s s]) simp_all
  next
    case 3
    with assms leaf have "close this s = Inr s' \<or> s' = s"
      by (auto simp: evtKeyDown_def split: if_splits)
    then show ?thesis by (auto intro: reaches_close [of s s] reaches_local)
  next
    case 4
    with assms leaf have "onMenu this activatePrevSelectable s = Inr s'"
      by (simp add: evtKeyDown_def)
    then have "localStep s s'" by (rule localStep_onMenu) (rule activate_selStep(3))
    then show ?thesis by (rule reaches_local)
  next
    case 5
    show ?thesis
    proof (cases "activeItem (menus s ! this)")
      case None
      with assms leaf 5 show ?thesis by (simp add: evtKeyDown_def reaches_local)
    next
      case (Some item)
      show ?thesis
      proof (cases "type item \<noteq> Submenu")
        case True
        with assms leaf 5 Some show ?thesis by (simp add: evtKeyDown_def reaches_local)
      next
        case False
        with assms leaf 5 Some obtain s2 where s2: "openChildMenu env this ?s1 = Inr s2"
          by (auto simp: evtKeyDown_def Let_def split: sum.splits)
        with assms leaf 5 Some False have
          "(case childMenu (menus s2 ! this) of None \<Rightarrow> Some (Inr s2)
            | Some c \<Rightarrow> Some (onMenu c activateFirstSelectable s2)) = Some (Inr s')"
          by (simp add: evtKeyDown_def Let_def)
        with l1 s2 show ?thesis by (rule openThenActivate)
      qed
    qed
  next
    case 6
    with assms leaf have "onMenu this activateNextSelectable s = Inr s'"
      by (simp add: evtKeyDown_def)
    then have "localStep s s'" by (rule localStep_onMenu) (rule activate_selStep(2))
    then show ?thesis by (rule reaches_local)
  next
    case 7
    with assms leaf have "s' = s" by (auto simp: evtKeyDown_def Let_def split: if_splits)
    then show ?thesis by (simp add: reaches_local)
  qed
qed

lemma evtMouseDown_reaches:
  assumes "evtMouseDown env this event s = Some (Inr s')"
  shows "reaches env this mayOpen s s'"
proof -
  from assms have "s' = s \<or> close this s = Inr s'"
    by (auto simp: evtMouseDown_def split: if_splits option.splits sum.splits bool.splits)
  then show ?thesis by (auto intro: reaches_close [of s s] reaches_local)
qed

text \<open>The menu an operation is called on.\<close>

fun target :: "operation \<Rightarrow> ref" where
  "target NewMenu = 0"
| "target (SetActiveIndex m v) = m"
| "target (SetActiveItem m v) = m"
| "target (AddItem m item) = m"
| "target (InsertItem m index item) = m"
| "target (RemoveItem m index) = m"
| "target (ClearItems m) = m"
| "target (Open m x y options) = m"
| "target (Close m) = m"
| "target (Dispose m) = m"
| "target (HandleEvent m event) = m"
| "target (OpenTimer m) = m"
| "target (CloseTimer m) = m"

text \<open>The operations that can open a child menu: a pointer release, a key press and the
  expiry of the open timer.\<close>

fun opens :: "operation \<Rightarrow> bool" where
  "opens (HandleEvent m (MouseUp e)) = True"
| "opens (HandleEvent m (KeyDown e)) = True"
| "opens (OpenTimer m) = True"
| "opens op = False"

lemma quietStep_modify:
  "quiet (menus s ! m) (f (menus s ! m)) \<Longrightarrow> quietStep s (modify m f s)"
  by (auto simp: quietStep_def nth_update_cases quiet_def)

lemma closeIfAttached_cases:
  "closeIfAttached m s = Inr s2 \<Longrightarrow> s2 = s \<or> close m s = Inr s2"
  by (auto simp: closeIfAttached_def split: if_splits)

lemma closeIfAttached_length:
  "closeIfAttached m s = Inr s2 \<Longrightarrow> length (menus s2) = length (menus s)"
  using onCloseRequest_post [of s m s2]
  by (auto simp: closeIfAttached_def close_def resetsAll_def split: if_splits)

lemma reaches_items:
  assumes "closeIfAttached m s = Inr s2" "quietStep s2 s'"
  shows "reaches env m mayOpen s s'"
proof -
  from closeIfAttached_cases [OF assms(1)] have "linkChange env m mayOpen s s2"
    by (auto simp: linkChange_def close_def)
  with assms(2) show ?thesis by (intro reachesI [of s s env m mayOpen s2]) simp_all
qed

lemma vec_insert_length [simp]: "length (vec_insert xs i x) = Suc (length xs)"
  by (simp add: vec_insert_def Let_def)

lemma vec_remove_length:
  "0 \<le> i \<Longrightarrow> i < int (length xs) \<Longrightarrow> length (vec_remove xs i) = length xs - 1"
  by (auto simp: vec_remove_def)

lemma insertItem_reaches:
  assumes "insertItem m index item s = Inr s'"
  shows "reaches env m mayOpen s s'"
proof -
  from assms obtain s2 where c: "closeIfAttached m s = Inr s2"
    and e: "s' = modify m
              (\<lambda>M. let M = M\<lparr>activeIndex := -1\<rparr>;
                       i = max 0 (min \<lfloor>index\<rfloor> (int (length (items M))));
                       node = createItemNode
                   in M\<lparr>items := vec_insert (items M) i item,
                        nodes := vec_insert (nodes M) i node\<rparr>) s2"
    by (auto simp: insertItem_def split: if_splits sum.splits)
  have "quietStep s2 s'" unfolding e
    by (rule quietStep_modify) (auto simp: quiet_def menuOk_def selectionOk_def Let_def)
  with c show ?thesis by (rule reaches_items)
qed

lemma removeItem_reaches:
  assumes "removeItem m index s = Inr s'"
  shows "reaches env m mayOpen s s'"
proof (cases "\<lfloor>index\<rfloor> < 0 \<or> \<lfloor>index\<rfloor> \<ge> int (length (items (menus s ! m)))")
  case True
  with assms have "s' = s" by (auto simp: removeItem_def Let_def split: if_splits)
  then show ?thesis by (simp add: reaches_local)
next
  case False
  let ?i = "\<lfloor>index\<rfloor>"
  from assms False obtain s2 where c: "closeIfAttached m s = Inr s2"
    and e: "s' = modify m (\<lambda>M. M\<lparr>items := vec_remove (items M) ?i, nodes := vec_remove (nodes M) ?i\<rparr>)
              (modify m (\<lambda>M. M\<lparr>activeIndex := -1\<rparr>) s2)"
    and n: "vec_at (nodes (menus (modify m (\<lambda>M. M\<lparr>activeIndex := -1\<rparr>) s2) ! m)) ?i \<noteq> None"
    by (auto simp: removeItem_def Let_def split: if_splits sum.splits option.splits)
  let ?s3 = "modify m (\<lambda>M. M\<lparr>activeIndex := -1\<rparr>) s2"
  have q1: "quietStep s2 ?s3"
    by (rule quietStep_modify) (auto simp: quiet_def menuOk_def selectionOk_def)
  have q2: "quietStep ?s3 s'" unfolding e
  proof (rule quietStep_modify)
    let ?M = "menus ?s3 ! m"
    have "menuOk ?M \<Longrightarrow> menuOk (?M\<lparr>items := vec_remove (items ?M) ?i, nodes := vec_remove (nodes ?M) ?i\<rparr>)"
    proof -
      assume ok: "menuOk ?M"
      from n have r: "0 \<le> ?i" "?i < int (length (nodes ?M))"
        by (auto simp: vec_at_def split: if_splits)
      moreover from assms have "m < length (menus s)"
        by (auto simp: removeItem_def split: if_splits)
      then have "m < length (menus s2)" using closeIfAttached_length [OF c] by simp
      then have "activeIndex ?M = -1" by simp
      ultimately show ?thesis using ok
        by (auto simp: menuOk_def selectionOk_def vec_remove_length)
    qed
    then show "quiet ?M (?M\<lparr>items := vec_remove (items ?M) ?i, nodes := vec_remove (nodes ?M) ?i\<rparr>)"
      by (simp add: quiet_def)
  qed
  from c quietStep_trans [OF q1 q2] show ?thesis by (rule reaches_items)
qed

lemma clearItems_reaches:
  assumes "clearItems m s = Inr s'"
  shows "reaches env m mayOpen s s'"
proof -
  from assms obtain s2 where c: "closeIfAttached m s = Inr s2"
    and e: "s' = modify m (\<lambda>M. M\<lparr>activeIndex := -1, items := [], nodes := []\<rparr>) s2"
    by (auto simp: clearItems_def split: if_splits sum.splits)
  have "quietStep s2 s'" unfolding e
    by (rule quietStep_modify) (auto simp: quiet_def menuOk_def selectionOk_def)
  with c show ?thesis by (rule reaches_items)
qed

lemma dispose_reaches:
  assumes "dispose m s = Inr s'"
  shows "reaches env m mayOpen s s'"
proof -
  from assms obtain s2 where c: "close m s = Inr s2"
    and e: "s' = modify m (\<lambda>M. M\<lparr>items := [], nodes := []\<rparr>) s2"
    by (auto simp: dispose_def split: sum.splits)
  from c have "isClosed (menus s2 ! m)"
    using onCloseRequest_post [of s m s2] by (simp add: close_def)
  then have "quietStep s2 s'" unfolding e
    by (intro quietStep_modify) (auto simp: quiet_def menuOk_def selectionOk_def isClosed_def)
  with c show ?thesis
    by (intro reachesI [of s s env m mayOpen s2]) (auto simp: linkChange_def close_def)
qed

lemma handleEvent_reaches:
  assumes "handleEvent env m event s = Some (Inr s')"
  shows "reaches env m (opens (HandleEvent m event)) s s'"
proof (cases event)
  case (MouseUp e)
  with assms show ?thesis by (auto simp: handleEvent_def split: if_splits intro: evtMouseUp_reaches)
next
  case (MouseMove e)
  with assms show ?thesis
    by (auto simp: handleEvent_def split: if_splits intro: reaches_local evtMouseMove_localStep)
next
  case (MouseLeave e)
  with assms show ?thesis
    by (auto simp: handleEvent_def split: if_splits intro: reaches_local evtMouseLeave_localStep)
next
  case ContextMenu
  with assms show ?thesis by (auto simp: handleEvent_def split: if_splits intro: reaches_local)
next
  case (KeyDown e)
  with assms show ?thesis by (auto simp: handleEvent_def split: if_splits intro: evtKeyDown_reaches)
next
  case (KeyPress e)
  with assms show ?thesis
    by (auto simp: handleEvent_def split: if_splits intro: reaches_local evtKeyPress_localStep)
next
  case (MouseDown e)
  with assms show ?thesis by (auto simp: handleEvent_def split: if_splits intro: evtMouseDown_reaches)
next
  case OtherEvent
  with assms show ?thesis by (auto simp: handleEvent_def split: if_splits intro: reaches_local)
qed

lemma perform_reaches:
  assumes "perform env op s = Some (Inr s')" "op \<noteq> NewMenu"
  shows "reaches env (target op) (opens op) s s'"
proof (cases op)
  case NewMenu
  with assms show ?thesis by simp
next
  case (SetActiveIndex m v)
  with assms show ?thesis by (auto simp: perform_def intro: reaches_local setter_localStep)
next
  case (SetActiveItem m v)
  with assms have "onMenu m (setActiveItem v) s = Inr s'" by (simp add: perform_def)
  then have "localStep s s'" by (rule localStep_onMenu) (rule setActiveItem_selStep)
  with SetActiveItem show ?thesis by (simp add: reaches_local)
next
  case (AddItem m item)
  with assms show ?thesis by (auto simp: perform_def addItem_def intro: insertItem_reaches)
next
  case (InsertItem m index item)
  with assms show ?thesis by (auto simp: perform_def intro: insertItem_reaches)
next
  case (RemoveItem m index)
  with assms show ?thesis by (auto simp: perform_def intro: removeItem_reaches)
next
  case (ClearItems m)
  with assms show ?thesis by (auto simp: perform_def intro: clearItems_reaches)
next
  case (Open m x y options)
  with assms have "onMenu m (open' env x y options) s = Inr s'" by (simp add: perform_def)
  then have "localStep s s'" by (rule localStep_onMenu) (rule open'_selStep)
  with Open show ?thesis by (simp add: reaches_local)
next
  case (Close m)
  with assms show ?thesis by (auto simp: perform_def intro: reaches_close [of s s])
next
  case (Dispose m)
  with assms show ?thesis by (auto simp: perform_def intro: dispose_reaches)
next
  case (HandleEvent m event)
  with assms show ?thesis by (auto simp: perform_def dest: handleEvent_reaches)
next
  case (OpenTimer m)
  with assms have "s' = s \<or> openChildMenu env m (modify m (\<lambda>M. M\<lparr>openTimerID := 0\<rparr>) s) = Inr s'"
    by (auto simp: perform_def openTimerCallback_def split: if_splits)
  moreover have "localStep s (modify m (\<lambda>M. M\<lparr>openTimerID := 0\<rparr>) s)"
    by (rule localStep_modify) (rule selStep_fields)
  ultimately show ?thesis using OpenTimer
    by (auto intro: reaches_local reaches_open [where s' = s'])
next
  case (CloseTimer m)
  with assms have "s' = s \<or> closeChildMenu m (modify m (\<lambda>M. M\<lparr>closeTimerID := 0\<rparr>) s) = Inr s'"
    by (auto simp: perform_def closeTimerCallback_def split: if_splits)
  moreover have "localStep s (modify m (\<lambda>M. M\<lparr>closeTimerID := 0\<rparr>) s)"
    by (rule localStep_modify) (rule selStep_fields)
  ultimately show ?thesis using CloseTimer
    by (auto intro: reaches_local reaches_closeChild)
qed

subsection \<open>Validity of the selection in every reachable store\<close>

text \<open>Every menu of the store is valid.\<close>

definition allOk :: "state \<Rightarrow> bool" where
  "allOk s \<longleftrightarrow> list_all menuOk (menus s)"

lemma allOk_nth: "allOk s \<Longrightarrow> x < length (menus s) \<Longrightarrow> menuOk (menus s ! x)"
  by (simp add: allOk_def list_all_length)

lemma allOk_quietStep: "quietStep s s' \<Longrightarrow> allOk s \<Longrightarrow> allOk s'"
  by (simp add: allOk_def list_all_length quietStep_def quiet_def)

lemma allOk_localStep: "localStep s s' \<Longrightarrow> allOk s \<Longrightarrow> allOk s'"
  by (rule allOk_quietStep [OF localStep_quietStep])

lemma resets_menuOk: "resets M M' \<Longrightarrow> menuOk M \<Longrightarrow> menuOk M'"
  by (auto simp: resets_def menuOk_def selectionOk_def)

lemma allOk_resetsAll: "resetsAll s s' \<Longrightarrow> allOk s \<Longrightarrow> allOk s'"
  by (auto simp: allOk_def list_all_length resetsAll_def intro: resets_menuOk)

lemma closeChildMenu_resetsAll:
  assumes "closeChildMenu m s = Inr s'"
  shows "resetsAll s s'"
proof (cases "childMenu (menus s ! m)")
  case None
  with assms show ?thesis by (simp add: closeChildMenu_def)
next
  case (Some c)
  let ?s1 = "modify m (\<lambda>M. M\<lparr>childIndex := -1, childMenu := None\<rparr>) s"
  let ?s2 = "modify c (\<lambda>C. C\<lparr>parentMenu := None\<rparr>) ?s1"
  from assms Some have "onCloseRequest ?s2 c = Inr s'"
    by (simp add: closeChildMenu_def close_def)
  then have "resetsAll ?s2 s'" using onCloseRequest_post by blast
  moreover have "resetsAll s ?s1" by (rule resetsAll_modify) (simp add: resets_def)
  moreover have "resetsAll ?s1 ?s2" by (rule resetsAll_modify) (simp add: resets_def)
  ultimately show ?thesis by (blast intro: resetsAll_trans)
qed

text \<open>The three outcomes of \<open>openChildMenu\<close>: the child is closed, nothing happens, or the
  submenu \<open>c\<close> of the active item is linked and placed.\<close>

definition linked :: "ref \<Rightarrow> ref \<Rightarrow> state \<Rightarrow> state" where
  "linked this c s =
     modify c (\<lambda>C. C\<lparr>parentMenu := Some this\<rparr>)
       (modify this (\<lambda>M. M\<lparr>childMenu := Some c, childIndex := activeIndex M\<rparr>) s)"

lemma openChildMenu_cases:
  assumes "openChildMenu env this s = Inr s'"
  obtains "closeChildMenu this s = Inr s'" | "s' = s"
  | item c s1 where "activeItem (menus s ! this) = Some item" "type item = Submenu"
      "submenu item = Some c" "childMenu (menus s ! this) \<noteq> Some c"
      "closeChildMenu this s = Inr s1"
      "onMenu c (openSubmenu env (activeItemNode (menus (linked this c s1) ! this)))
         (linked this c s1) = Inr s'"
proof (cases "activeItem (menus s ! this)")
  case None
  with assms that(1) show ?thesis by (simp add: openChildMenu_def)
next
  case (Some item)
  show ?thesis
  proof (cases "type item \<noteq> Submenu \<or> submenu item = None")
    case True
    with assms Some that(1) show ?thesis by (auto simp: openChildMenu_def)
  next
    case False
    then obtain c where c: "submenu item = Some c" "type item = Submenu" by auto
    show ?thesis
    proof (cases "childMenu (menus s ! this) = Some c")
      case True
      with assms Some c that(2) show ?thesis by (simp add: openChildMenu_def)
    next
      case nc: False
      with assms Some c obtain s1 where s1: "closeChildMenu this s = Inr s1"
        by (auto simp: openChildMenu_def split: sum.splits)
      with assms Some c nc have
        "onMenu c (openSubmenu env (activeItemNode (menus (linked this c s1) ! this)))
           (linked this c s1) = Inr s'"
        by (auto simp: openChildMenu_def Let_def linked_def)
      with Some c nc s1 that(3) show ?thesis by blast
    qed
  qed
qed

lemma linked_quiet_ok:
  "allOk s \<Longrightarrow> allOk (linked this c s)"
  by (auto simp: allOk_def list_all_length linked_def nth_update_cases menuOk_def selectionOk_def)

lemma openSubmenu_localStep:
  "onMenu c (openSubmenu env n) s = Inr s' \<Longrightarrow> localStep s s'"
  by (erule localStep_onMenu) (rule openSubmenu_selStep)

lemma allOk_openChildMenu:
  assumes "openChildMenu env this s = Inr s'" "allOk s"
  shows "allOk s'"
  using assms(1)
proof (cases rule: openChildMenu_cases)
  case 1
  then show ?thesis using assms(2) closeChildMenu_resetsAll allOk_resetsAll by blast
next
  case 2
  then show ?thesis using assms(2) by simp
next
  case (3 item c s1)
  from 3(5) assms(2) have "allOk s1" using closeChildMenu_resetsAll allOk_resetsAll by blast
  then have "allOk (linked this c s1)" by (rule linked_quiet_ok)
  with openSubmenu_localStep [OF 3(6)] show ?thesis by (rule allOk_localStep)
qed

lemma allOk_linkChange:
  assumes "linkChange env this mayOpen s s'" "allOk s"
  shows "allOk s'"
  using assms onCloseRequest_post closeChildMenu_resetsAll allOk_resetsAll allOk_openChildMenu
  unfolding linkChange_def by blast

lemma allOk_reaches: "reaches env this mayOpen s s' \<Longrightarrow> allOk s \<Longrightarrow> allOk s'"
  unfolding reaches_def using allOk_localStep allOk_linkChange allOk_quietStep by blast

lemma menuOk_new [simp]: "menuOk Menu_new"
  by (simp add: menuOk_def selectionOk_def Menu_new_def)

lemma allOk_perform:
  assumes "perform env op s = Some (Inr s')" "allOk s"
  shows "allOk s'"
proof (cases "op = NewMenu")
  case True
  with assms show ?thesis by (auto simp: perform_def allOk_def)
next
  case False
  from perform_reaches [OF assms(1) False] assms(2) show ?thesis by (rule allOk_reaches)
qed

text \<open>The stores reached from the empty store by the constructor, the public interface,
  the events and the timer expiries, each operation returning normally.\<close>

inductive reachable :: "state \<Rightarrow> bool" where
  start: "reachable initial"
| step: "reachable s \<Longrightarrow> perform env op s = Some (Inr s') \<Longrightarrow> reachable s'"

lemma reachable_allOk: "reachable s \<Longrightarrow> allOk s"
proof (induction rule: reachable.induct)
  case start
  show ?case by (simp add: allOk_def initial_def)
next
  case (step s env op s')
  from step.hyps(2) step.IH show ?case by (rule allOk_perform)
qed

text \<open>Claim C9: in every reachable store the active index of every menu is \<open>-1\<close> or the
  index of a selectable item (the items of the model are values: changing the flags of an
  item from outside is not an operation of the menu); the setter stores \<open>-1\<close> unless the
  floor of the value is the index of a selectable item, which it then stores; and on a valid
  menu the setter returns.\<close>

theorem C9_selection_valid:
  "(reachable s \<and> m < length (menus s) \<longrightarrow> selectionOk (menus s ! m)) \<and>
   (setActiveIndex v M = Inr M' \<longrightarrow>
      activeIndex M' = coerceIndex M v \<and>
      (activeIndex M' = -1 \<or>
       (activeIndex M' = \<lfloor>v\<rfloor> \<and> 0 \<le> \<lfloor>v\<rfloor> \<and> \<lfloor>v\<rfloor> < int (length (items M)) \<and>
        isSelectable (items M ! nat \<lfloor>v\<rfloor>)))) \<and>
   (menuOk M \<longrightarrow> (\<exists>M'. setActiveIndex v M = Inr M'))"
proof (intro conjI impI)
  assume "reachable s \<and> m < length (menus s)"
  then show "selectionOk (menus s ! m)"
    using allOk_nth [OF reachable_allOk] by (auto simp: menuOk_def)
next
  assume a: "setActiveIndex v M = Inr M'"
  from setActiveIndex_shape [OF a] show c: "activeIndex M' = coerceIndex M v" by auto
  show "activeIndex M' = -1 \<or>
       (activeIndex M' = \<lfloor>v\<rfloor> \<and> 0 \<le> \<lfloor>v\<rfloor> \<and> \<lfloor>v\<rfloor> < int (length (items M)) \<and>
        isSelectable (items M ! nat \<lfloor>v\<rfloor>))"
    unfolding c by (auto simp: coerceIndex_def)
next
  assume "menuOk M"
  from setActiveIndex_ok [OF this, of v] show "\<exists>M'. setActiveIndex v M = Inr M'" by blast
qed

lemma performAll_reachable:
  "performAll env ops s = Some (Inr s') \<Longrightarrow> reachable s \<Longrightarrow> reachable s'"
proof (induction ops arbitrary: s)
  case Nil
  then show ?case by simp
next
  case (Cons op ops)
  from Cons.prems(1) obtain s1 where p: "perform env op s = Some (Inr s1)"
    and r: "performAll env ops s1 = Some (Inr s')"
    by (auto split: option.splits sum.splits)
  from Cons.prems(2) p have "reachable s1" by (rule reachable.step)
  with r show ?case by (rule Cons.IH)
qed

lemma selectedState_reachable: "reachable selectedState"
proof -
  have "performAll (exampleDom 50 30)
      [NewMenu, AddItem 0 (normalItem ''A''), SetActiveIndex 0 0] initial = Some (Inr selectedState)"
    by (simp add: selectedState_def perform_def initial_def addItem_def insertItem_def
      closeIfAttached_def Menu_new_def onMenu_def setActiveIndex_def normalItem_def
      MenuItem_default_def isSelectable_def vec_insert_def createItemNode_def addActive_def
      vec_at_def classList_add_def ACTIVE_CLASS_def ITEM_CLASS_def modify_def Let_def)
  then show ?thesis using reachable.start by (rule performAll_reachable)
qed

definition activeAfterSet :: "real \<Rightarrow> Menu \<Rightarrow> error + int" where
  "activeAfterSet v M = (case setActiveIndex v M of Inl e \<Rightarrow> Inl e | Inr M' \<Rightarrow> Inr (activeIndex M'))"

text \<open>The statement of C9 in the store reached by adding an item and selecting it, and for
  the values 7 (out of range) and 0 given to the setter there.\<close>

theorem C9_witness:
  "selectionOk (menus selectedState ! 0) \<and>
   activeAfterSet 7 (menus selectedState ! 0) = Inr (-1) \<and>
   activeAfterSet 0 (menus selectedState ! 0) = Inr 0"
proof -
  let ?M = "menus selectedState ! 0"
  have ok: "menuOk ?M"
    by (simp add: selectedState_def menuOk_def selectionOk_def Menu_new_def normalItem_def
        MenuItem_default_def isSelectable_def)
  note a = C9_selection_valid [where s = selectedState and m = 0 and M = ?M and v = 7]
  note b = C9_selection_valid [where s = selectedState and m = 0 and M = ?M and v = 0]
  from a ok obtain M7 where m7: "setActiveIndex 7 ?M = Inr M7" by blast
  from b ok obtain M0 where m0: "setActiveIndex 0 ?M = Inr M0" by blast
  have c7: "coerceIndex ?M 7 = -1" by (simp add: coerceIndex_def selectedState_def)
  have c0: "coerceIndex ?M 0 = 0"
    by (simp add: coerceIndex_def selectedState_def normalItem_def MenuItem_default_def
        isSelectable_def)
  have s: "selectionOk ?M" using a selectedState_reachable by (simp add: selectedState_def)
  have "activeIndex M7 = -1" using C9_selection_valid [where M = ?M and v = 7 and M' = M7] m7 c7
    by simp
  moreover have "activeIndex M0 = 0" using C9_selection_valid [where M = ?M and v = 0 and M' = M0] m0 c0
    by simp
  ultimately show ?thesis using s m7 m0 by (simp add: activeAfterSet_def)
qed

subsection \<open>Items and nodes\<close>

text \<open>The calls of claim C8 on a menu, and a sequence of them run until one raises.\<close>

datatype itemCall = InsertCall real MenuItem | RemoveCall real | ClearCall

fun applyCall :: "ref \<Rightarrow> itemCall \<Rightarrow> state \<Rightarrow> error + state" where
  "applyCall m (InsertCall index item) s = insertItem m index item s"
| "applyCall m (RemoveCall index) s = removeItem m index s"
| "applyCall m ClearCall s = clearItems m s"

fun applyCalls :: "ref \<Rightarrow> itemCall list \<Rightarrow> state \<Rightarrow> error + state" where
  "applyCalls m [] s = Inr s"
| "applyCalls m (c # cs) s =
     (case applyCall m c s of Inl e \<Rightarrow> Inl e | Inr s' \<Rightarrow> applyCalls m cs s')"

definition sameLength :: "state \<Rightarrow> ref \<Rightarrow> bool" where
  "sameLength s m \<longleftrightarrow> length (items (menus s ! m)) = length (nodes (menus s ! m))"

lemma closeIfAttached_keeps:
  assumes "closeIfAttached m s = Inr s2" "m < length (menus s)"
  shows "items (menus s2 ! m) = items (menus s ! m) \<and>
         length (nodes (menus s2 ! m)) = length (nodes (menus s ! m)) \<and>
         m < length (menus s2) \<and> (\<not> isAttached (menus s ! m) \<longrightarrow> s2 = s)"
proof -
  from closeIfAttached_cases [OF assms(1)] have "resetsAll s s2"
    using onCloseRequest_post [of s m s2] by (auto simp: close_def)
  then have "length (menus s2) = length (menus s)" "resets (menus s ! m) (menus s2 ! m)"
    using assms(2) by (simp_all add: resetsAll_def)
  then have "items (menus s2 ! m) = items (menus s ! m)"
    "length (nodes (menus s2 ! m)) = length (nodes (menus s ! m))" "m < length (menus s2)"
    using assms(2) by (simp_all add: resets_def)
  moreover have "\<not> isAttached (menus s ! m) \<longrightarrow> s2 = s"
    using assms(1) by (auto simp: closeIfAttached_def)
  ultimately show ?thesis by simp
qed

lemma applyCall_sameLength:
  assumes "applyCall m c s = Inr s'" "sameLength s m"
  shows "sameLength s' m \<and> m < length (menus s') \<and>
         (\<not> isAttached (menus s ! m) \<longrightarrow> \<not> isAttached (menus s' ! m))"
proof (cases c)
  case (InsertCall index item)
  with assms(1) obtain s2 where lt: "m < length (menus s)" and c: "closeIfAttached m s = Inr s2"
    and e: "s' = modify m
              (\<lambda>M. let M = M\<lparr>activeIndex := -1\<rparr>;
                       i = max 0 (min \<lfloor>index\<rfloor> (int (length (items M))));
                       node = createItemNode
                   in M\<lparr>items := vec_insert (items M) i item,
                        nodes := vec_insert (nodes M) i node\<rparr>) s2"
    by (auto simp: insertItem_def split: if_splits sum.splits)
  from closeIfAttached_keeps [OF c lt] assms(2) show ?thesis unfolding e
    by (auto simp: sameLength_def Let_def)
next
  case (RemoveCall index)
  let ?i = "\<lfloor>index\<rfloor>"
  from assms(1) RemoveCall have lt: "m < length (menus s)"
    by (auto simp: removeItem_def split: if_splits)
  show ?thesis
  proof (cases "?i < 0 \<or> ?i \<ge> int (length (items (menus s ! m)))")
    case True
    with assms RemoveCall lt show ?thesis by (auto simp: removeItem_def Let_def)
  next
    case False
    with assms(1) RemoveCall lt obtain s2 where c: "closeIfAttached m s = Inr s2"
      and e: "s' = modify m (\<lambda>M. M\<lparr>items := vec_remove (items M) ?i, nodes := vec_remove (nodes M) ?i\<rparr>)
              (modify m (\<lambda>M. M\<lparr>activeIndex := -1\<rparr>) s2)"
      by (auto simp: removeItem_def Let_def split: if_splits sum.splits option.splits)
    from closeIfAttached_keeps [OF c lt] assms(2) False show ?thesis unfolding e
      by (auto simp: sameLength_def vec_remove_length)
  qed
next
  case ClearCall
  with assms(1) obtain s2 where lt: "m < length (menus s)" and c: "closeIfAttached m s = Inr s2"
    and e: "s' = modify m (\<lambda>M. M\<lparr>activeIndex := -1, items := [], nodes := []\<rparr>) s2"
    by (auto simp: clearItems_def split: if_splits sum.splits)
  from closeIfAttached_keeps [OF c lt] assms(2) show ?thesis unfolding e
    by (auto simp: sameLength_def)
qed

lemma applyCall_returns:
  assumes "sameLength s m" "m < length (menus s)" "\<not> isAttached (menus s ! m)"
  shows "\<exists>s'. applyCall m c s = Inr s'"
proof (cases c)
  case (InsertCall index item)
  with assms show ?thesis by (simp add: insertItem_def closeIfAttached_def)
next
  case (RemoveCall index)
  with assms show ?thesis
    by (auto simp: removeItem_def closeIfAttached_def Let_def vec_at_def sameLength_def)
next
  case ClearCall
  with assms show ?thesis by (simp add: clearItems_def closeIfAttached_def)
qed

text \<open>Claim C8: from a store in which the item and node sequences of a menu have the same
  length (as in a new menu), after every sequence of \<^verbatim>\<open>insertItem\<close>, \<^verbatim>\<open>removeItem\<close> and
  \<^verbatim>\<open>clearItems\<close> calls on it, with any indices and items, the two lengths are equal (every
  prefix of a sequence is a sequence, so this holds after each call); and the calls return
  whenever the menu is not attached.\<close>

theorem C8_items_nodes:
  assumes "sameLength s m"
  shows "(applyCalls m cs s = Inr s' \<longrightarrow> sameLength s' m) \<and>
         (m < length (menus s) \<and> \<not> isAttached (menus s ! m) \<longrightarrow>
            (\<exists>s''. applyCalls m cs s = Inr s''))"
  using assms
proof (induction cs arbitrary: s)
  case Nil
  then show ?case by auto
next
  case (Cons c cs)
  show ?case
  proof (intro conjI impI)
    assume "applyCalls m (c # cs) s = Inr s'"
    then obtain s1 where a: "applyCall m c s = Inr s1" and b: "applyCalls m cs s1 = Inr s'"
      by (auto split: sum.splits)
    from applyCall_sameLength [OF a Cons.prems] have "sameLength s1 m" by simp
    from Cons.IH [OF this] b show "sameLength s' m" by simp
  next
    assume h: "m < length (menus s) \<and> \<not> isAttached (menus s ! m)"
    with Cons.prems obtain s1 where a: "applyCall m c s = Inr s1"
      using applyCall_returns [of s m c] by blast
    from applyCall_sameLength [OF a Cons.prems] h
    have "sameLength s1 m" "m < length (menus s1) \<and> \<not> isAttached (menus s1 ! m)" by simp_all
    with Cons.IH [of s1] obtain s'' where "applyCalls m cs s1 = Inr s''" by blast
    with a show "\<exists>s''. applyCalls m (c # cs) s = Inr s''" by simp
  qed
qed

text \<open>The statement of C8 for two sequences of calls on a new menu.\<close>

definition lengthsAfter :: "ref \<Rightarrow> itemCall list \<Rightarrow> state \<Rightarrow> (nat \<times> nat) option" where
  "lengthsAfter m cs s =
     (case applyCalls m cs s of
        Inl e \<Rightarrow> None
      | Inr s' \<Rightarrow> Some (length (items (menus s' ! m)), length (nodes (menus s' ! m))))"

theorem C8_witness:
  "lengthsAfter 0 [InsertCall 5 (normalItem ''A''), InsertCall (-3) sepItem, RemoveCall 1,
      RemoveCall 9, InsertCall 0 (normalItem ''B'')] (initial\<lparr>menus := [Menu_new]\<rparr>) = Some (2, 2) \<and>
   lengthsAfter 0 [InsertCall 0 sepItem, ClearCall] (initial\<lparr>menus := [Menu_new]\<rparr>) = Some (0, 0)"
  using C8_items_nodes [where s = "initial\<lparr>menus := [Menu_new]\<rparr>" and m = 0
      and cs = "[InsertCall 5 (normalItem ''A''), InsertCall (-3) sepItem, RemoveCall 1,
      RemoveCall 9, InsertCall 0 (normalItem ''B'')]"]
    C8_items_nodes [where s = "initial\<lparr>menus := [Menu_new]\<rparr>" and m = 0
      and cs = "[InsertCall 0 sepItem, ClearCall]"]
  by (simp add: lengthsAfter_def sameLength_def initial_def Menu_new_def insertItem_def
      removeItem_def clearItems_def closeIfAttached_def vec_insert_def vec_remove_def vec_at_def
      modify_def Let_def createItemNode_def)

subsection \<open>The links between a menu and its child\<close>

text \<open>The invariant of the links for the menu \<open>m\<close> of a store, on both sides of each
  link: the menu has a child menu exactly when its child index is not \<open>-1\<close>; its child menu,
  if any, is a menu of the store whose parent menu is \<open>m\<close>; and its parent menu, if any, is
  a menu of the store whose child menu is \<open>m\<close>. A store is consistent when this holds for
  every menu.\<close>

definition linkOk :: "state \<Rightarrow> ref \<Rightarrow> bool" where
  "linkOk s m \<longleftrightarrow>
     (childMenu (menus s ! m) \<noteq> None \<longleftrightarrow> childIndex (menus s ! m) \<noteq> -1) \<and>
     (case childMenu (menus s ! m) of
        None \<Rightarrow> True
      | Some c \<Rightarrow> c < length (menus s) \<and> parentMenu (menus s ! c) = Some m) \<and>
     (case parentMenu (menus s ! m) of
        None \<Rightarrow> True
      | Some p \<Rightarrow> p < length (menus s) \<and> childMenu (menus s ! p) = Some m)"

definition linksOk :: "state \<Rightarrow> bool" where
  "linksOk s \<longleftrightarrow> list_all (linkOk s) [0..<length (menus s)]"

text \<open>The invariant written with quantifiers, and what it gives for a child and for a
  parent menu.\<close>

lemma linkOk_iff:
  "linkOk s m \<longleftrightarrow>
     (childMenu (menus s ! m) \<noteq> None \<longleftrightarrow> childIndex (menus s ! m) \<noteq> -1) \<and>
     (\<forall>c. childMenu (menus s ! m) = Some c \<longrightarrow>
        c < length (menus s) \<and> parentMenu (menus s ! c) = Some m) \<and>
     (\<forall>p. parentMenu (menus s ! m) = Some p \<longrightarrow>
        p < length (menus s) \<and> childMenu (menus s ! p) = Some m)"
proof -
  have a: "(case x of None \<Rightarrow> True | Some c \<Rightarrow> P c) \<longleftrightarrow> (\<forall>c. x = Some c \<longrightarrow> P c)"
    for x :: "ref option" and P
    by (cases x) simp_all
  show ?thesis unfolding linkOk_def a ..
qed

lemma linksOk_iff:
  "linksOk s \<longleftrightarrow>
     (\<forall>m < length (menus s).
        (childMenu (menus s ! m) \<noteq> None \<longleftrightarrow> childIndex (menus s ! m) \<noteq> -1) \<and>
        (\<forall>c. childMenu (menus s ! m) = Some c \<longrightarrow>
           c < length (menus s) \<and> parentMenu (menus s ! c) = Some m) \<and>
        (\<forall>p. parentMenu (menus s ! m) = Some p \<longrightarrow>
           p < length (menus s) \<and> childMenu (menus s ! p) = Some m))"
proof -
  have "linksOk s \<longleftrightarrow> (\<forall>m < length (menus s). linkOk s m)"
    by (auto simp: linksOk_def list_all_iff)
  then show ?thesis unfolding linkOk_iff .
qed

lemma linksOk_childD:
  assumes "linksOk s" "m < length (menus s)" "childMenu (menus s ! m) = Some c"
  shows "c < length (menus s) \<and> parentMenu (menus s ! c) = Some m \<and>
    childIndex (menus s ! m) \<noteq> -1"
proof -
  note a = assms(1) [unfolded linksOk_iff, rule_format, OF assms(2)]
  from a assms(3) show ?thesis by simp
qed

lemma linksOk_parentD:
  assumes "linksOk s" "m < length (menus s)" "parentMenu (menus s ! m) = Some p"
  shows "p < length (menus s) \<and> childMenu (menus s ! p) = Some m"
proof -
  note a = assms(1) [unfolded linksOk_iff, rule_format, OF assms(2)]
  from a assms(3) show ?thesis by simp
qed

text \<open>The invariant holds of two menus linked on both sides, and excludes a parent menu
  that no child menu answers, a child menu that no parent menu answers, and a child menu
  with the child index \<open>-1\<close>.\<close>

lemma linksOk_two_sided:
  "\<not> linksOk \<lparr>menus = [Menu_new, Menu_new\<lparr>parentMenu := Some 0\<rparr>], emitted = [], timerCount = 0\<rparr> \<and>
   \<not> linksOk \<lparr>menus = [Menu_new\<lparr>childMenu := Some 1, childIndex := 0\<rparr>, Menu_new],
               emitted = [], timerCount = 0\<rparr> \<and>
   \<not> linksOk \<lparr>menus = [Menu_new\<lparr>childMenu := Some 1\<rparr>, Menu_new\<lparr>parentMenu := Some 0\<rparr>],
               emitted = [], timerCount = 0\<rparr> \<and>
   linksOk \<lparr>menus = [Menu_new\<lparr>childMenu := Some 1, childIndex := 0\<rparr>,
                      Menu_new\<lparr>parentMenu := Some 0\<rparr>],
             emitted = [], timerCount = 0\<rparr>"
  by code_simp

text \<open>Steps that keep the child index, the child menu and the parent menu of every menu
  keep the invariant.\<close>

lemma linksOk_same_links:
  assumes "length (menus s') = length (menus s)"
    and "\<And>x. x < length (menus s) \<Longrightarrow>
      childMenu (menus s' ! x) = childMenu (menus s ! x) \<and>
      childIndex (menus s' ! x) = childIndex (menus s ! x) \<and>
      parentMenu (menus s' ! x) = parentMenu (menus s ! x)"
    and "linksOk s"
  shows "linksOk s'"
proof -
  note a = assms(3) [unfolded linksOk_iff, rule_format]
  show ?thesis
    unfolding linksOk_iff
  proof (intro allI impI)
    fix m assume "m < length (menus s')"
    with assms(1) have m: "m < length (menus s)" by simp
    note l = a [OF m] and e = assms(2) [OF m]
    have 1: "childMenu (menus s' ! m) \<noteq> None \<longleftrightarrow> childIndex (menus s' ! m) \<noteq> -1"
      using l e by simp
    have 2: "\<forall>c. childMenu (menus s' ! m) = Some c \<longrightarrow>
        c < length (menus s') \<and> parentMenu (menus s' ! c) = Some m"
    proof (intro allI impI)
      fix c assume "childMenu (menus s' ! m) = Some c"
      with e have "childMenu (menus s ! m) = Some c" by simp
      with l have c: "c < length (menus s)" "parentMenu (menus s ! c) = Some m" by auto
      with assms(2) [OF c(1)] assms(1)
      show "c < length (menus s') \<and> parentMenu (menus s' ! c) = Some m" by simp
    qed
    have 3: "\<forall>p. parentMenu (menus s' ! m) = Some p \<longrightarrow>
        p < length (menus s') \<and> childMenu (menus s' ! p) = Some m"
    proof (intro allI impI)
      fix p assume "parentMenu (menus s' ! m) = Some p"
      with e have "parentMenu (menus s ! m) = Some p" by simp
      with l have p: "p < length (menus s)" "childMenu (menus s ! p) = Some m" by auto
      with assms(2) [OF p(1)] assms(1)
      show "p < length (menus s') \<and> childMenu (menus s' ! p) = Some m" by simp
    qed
    from 1 2 3 show "(childMenu (menus s' ! m) \<noteq> None \<longleftrightarrow> childIndex (menus s' ! m) \<noteq> -1) \<and>
      (\<forall>c. childMenu (menus s' ! m) = Some c \<longrightarrow>
        c < length (menus s') \<and> parentMenu (menus s' ! c) = Some m) \<and>
      (\<forall>p. parentMenu (menus s' ! m) = Some p \<longrightarrow>
        p < length (menus s') \<and> childMenu (menus s' ! p) = Some m)"
      by blast
  qed
qed

lemma linksOk_quietStep: "quietStep s s' \<Longrightarrow> linksOk s \<Longrightarrow> linksOk s'"
  by (rule linksOk_same_links [of s' s]) (simp_all add: quietStep_def quiet_def)

lemma linksOk_localStep: "localStep s s' \<Longrightarrow> linksOk s \<Longrightarrow> linksOk s'"
  by (rule linksOk_quietStep [OF localStep_quietStep])

text \<open>What \<^verbatim>\<open>onCloseRequest\<close> and \<^verbatim>\<open>_closeChildMenu\<close> do to the links before they close
  the child \<open>c\<close> of a menu: both sides of the link are reset.\<close>

definition unlink :: "ref \<Rightarrow> ref \<Rightarrow> state \<Rightarrow> state" where
  "unlink this c s =
     modify c (\<lambda>C. C\<lparr>parentMenu := None\<rparr>)
       (modify this (\<lambda>M. M\<lparr>childIndex := -1, childMenu := None\<rparr>) s)"

lemma unlink_length [simp]: "length (menus (unlink this c s)) = length (menus s)"
  by (simp add: unlink_def)

lemma unlink_nth:
  "x < length (menus s) \<Longrightarrow> menus (unlink this c s) ! x =
     (if x = c then (if c = this then (menus s ! x)\<lparr>childIndex := -1, childMenu := None\<rparr>
                     else menus s ! x)\<lparr>parentMenu := None\<rparr>
      else if x = this then (menus s ! x)\<lparr>childIndex := -1, childMenu := None\<rparr>
      else menus s ! x)"
  by (auto simp: unlink_def nth_update_cases)

lemma unlink_links:
  assumes "x < length (menus s)"
  shows "childMenu (menus (unlink this c s) ! x) =
           (if x = this then None else childMenu (menus s ! x)) \<and>
         childIndex (menus (unlink this c s) ! x) =
           (if x = this then -1 else childIndex (menus s ! x)) \<and>
         parentMenu (menus (unlink this c s) ! x) =
           (if x = c then None else parentMenu (menus s ! x))"
  using assms by (auto simp: unlink_def nth_update_cases)

lemma linksOk_unlink:
  assumes "linksOk s" "this < length (menus s)" "childMenu (menus s ! this) = Some c"
  shows "linksOk (unlink this c s)"
proof -
  note a = assms(1) [unfolded linksOk_iff, rule_format]
  show ?thesis
    unfolding linksOk_iff
  proof (intro allI impI)
    fix m assume "m < length (menus (unlink this c s))"
    then have m: "m < length (menus s)" by simp
    note l = a [OF m]
    note u = unlink_links [of _ s this c]
    have 1: "childMenu (menus (unlink this c s) ! m) \<noteq> None \<longleftrightarrow>
        childIndex (menus (unlink this c s) ! m) \<noteq> -1" using l m by (simp add: u)
    have 2: "\<forall>c'. childMenu (menus (unlink this c s) ! m) = Some c' \<longrightarrow>
        c' < length (menus (unlink this c s)) \<and> parentMenu (menus (unlink this c s) ! c') = Some m"
    proof (intro allI impI)
      fix c' assume "childMenu (menus (unlink this c s) ! m) = Some c'"
      with m have ne: "m \<noteq> this" and ch: "childMenu (menus s ! m) = Some c'"
        by (auto simp: u split: if_splits)
      from l ch have c': "c' < length (menus s)" "parentMenu (menus s ! c') = Some m" by auto
      from a [OF assms(2)] assms(3) have "parentMenu (menus s ! c) = Some this" by auto
      with c' ne have "c' \<noteq> c" by auto
      with c' show "c' < length (menus (unlink this c s)) \<and>
          parentMenu (menus (unlink this c s) ! c') = Some m" by (simp add: u)
    qed
    have 3: "\<forall>p. parentMenu (menus (unlink this c s) ! m) = Some p \<longrightarrow>
        p < length (menus (unlink this c s)) \<and> childMenu (menus (unlink this c s) ! p) = Some m"
    proof (intro allI impI)
      fix p assume "parentMenu (menus (unlink this c s) ! m) = Some p"
      with m have ne: "m \<noteq> c" and pa: "parentMenu (menus s ! m) = Some p"
        by (auto simp: u split: if_splits)
      from l pa have p: "p < length (menus s)" "childMenu (menus s ! p) = Some m" by auto
      with assms(3) ne have "p \<noteq> this" by auto
      with p show "p < length (menus (unlink this c s)) \<and>
          childMenu (menus (unlink this c s) ! p) = Some m" by (simp add: u)
    qed
    from 1 2 3 show "(childMenu (menus (unlink this c s) ! m) \<noteq> None \<longleftrightarrow>
        childIndex (menus (unlink this c s) ! m) \<noteq> -1) \<and>
      (\<forall>c'. childMenu (menus (unlink this c s) ! m) = Some c' \<longrightarrow>
        c' < length (menus (unlink this c s)) \<and> parentMenu (menus (unlink this c s) ! c') = Some m) \<and>
      (\<forall>p. parentMenu (menus (unlink this c s) ! m) = Some p \<longrightarrow>
        p < length (menus (unlink this c s)) \<and> childMenu (menus (unlink this c s) ! p) = Some m)"
      by blast
  qed
qed

text \<open>Closing keeps the invariant: the first part of \<^verbatim>\<open>onCloseRequest\<close> touches no link,
  the link to the child is reset on both sides before the child is closed, and the last
  part resets both sides of the link to the parent menu.\<close>

lemma closeHead_links:
  "closeHead M = Inr M' \<Longrightarrow>
   childMenu M' = childMenu M \<and> childIndex M' = childIndex M \<and> parentMenu M' = parentMenu M"
  by (auto simp: closeHead_def cancelOpenTimer_def cancelCloseTimer_def
      dest!: setActiveIndex_shape split: if_splits)

lemma closeTail_nth:
  "x < length (menus s) \<Longrightarrow> x \<noteq> this \<Longrightarrow> parentMenu (menus s ! this) \<noteq> Some x \<Longrightarrow>
   menus (closeTail this s) ! x = menus s ! x"
  by (auto simp: closeTail_def Let_def nth_update_cases split: option.splits)

lemma closeTail_links:
  assumes "x < length (menus s)"
  shows "childMenu (menus (closeTail this s) ! x) =
           (if parentMenu (menus s ! this) = Some x then None else childMenu (menus s ! x)) \<and>
         childIndex (menus (closeTail this s) ! x) =
           (if parentMenu (menus s ! this) = Some x then -1 else childIndex (menus s ! x)) \<and>
         parentMenu (menus (closeTail this s) ! x) =
           (if x = this then None else parentMenu (menus s ! x))"
  using assms
  by (auto simp: closeTail_def Let_def nth_update_cases unparent_def detach_def
      cancelOpenTimer_def cancelCloseTimer_def split: option.splits)

lemma linksOk_closeTail:
  assumes "linksOk s" "this < length (menus s)"
  shows "linksOk (closeTail this s)"
proof -
  note a = assms(1) [unfolded linksOk_iff, rule_format]
  let ?t = "closeTail this s"
  show ?thesis
    unfolding linksOk_iff
  proof (intro allI impI)
    fix m assume "m < length (menus ?t)"
    then have m: "m < length (menus s)" by simp
    note l = a [OF m]
    note u = closeTail_links [of _ s this]
    have 1: "childMenu (menus ?t ! m) \<noteq> None \<longleftrightarrow> childIndex (menus ?t ! m) \<noteq> -1"
      using l m by (simp add: u)
    have 2: "\<forall>c'. childMenu (menus ?t ! m) = Some c' \<longrightarrow>
        c' < length (menus ?t) \<and> parentMenu (menus ?t ! c') = Some m"
    proof (intro allI impI)
      fix c' assume "childMenu (menus ?t ! m) = Some c'"
      with m have ne: "parentMenu (menus s ! this) \<noteq> Some m"
        and ch: "childMenu (menus s ! m) = Some c'"
        by (auto simp: u split: if_splits)
      from l ch have c': "c' < length (menus s)" "parentMenu (menus s ! c') = Some m" by auto
      with ne have "c' \<noteq> this" by auto
      with c' show "c' < length (menus ?t) \<and> parentMenu (menus ?t ! c') = Some m"
        by (simp add: u)
    qed
    have 3: "\<forall>p. parentMenu (menus ?t ! m) = Some p \<longrightarrow>
        p < length (menus ?t) \<and> childMenu (menus ?t ! p) = Some m"
    proof (intro allI impI)
      fix p assume "parentMenu (menus ?t ! m) = Some p"
      with m have ne: "m \<noteq> this" and pa: "parentMenu (menus s ! m) = Some p"
        by (auto simp: u split: if_splits)
      from l pa have p: "p < length (menus s)" "childMenu (menus s ! p) = Some m" by auto
      have "parentMenu (menus s ! this) \<noteq> Some p"
      proof
        assume "parentMenu (menus s ! this) = Some p"
        with a [OF assms(2)] have "childMenu (menus s ! p) = Some this" by auto
        with p ne show False by simp
      qed
      with p show "p < length (menus ?t) \<and> childMenu (menus ?t ! p) = Some m"
        by (simp add: u)
    qed
    from 1 2 3 show "(childMenu (menus ?t ! m) \<noteq> None \<longleftrightarrow> childIndex (menus ?t ! m) \<noteq> -1) \<and>
      (\<forall>c'. childMenu (menus ?t ! m) = Some c' \<longrightarrow>
        c' < length (menus ?t) \<and> parentMenu (menus ?t ! c') = Some m) \<and>
      (\<forall>p. parentMenu (menus ?t ! m) = Some p \<longrightarrow>
        p < length (menus ?t) \<and> childMenu (menus ?t ! p) = Some m)"
      by blast
  qed
qed

lemma linksOk_close:
  "onCloseRequest s this = Inr s' \<Longrightarrow> linksOk s \<Longrightarrow> linksOk s'"
proof (induction s this arbitrary: s' rule: onCloseRequest.induct)
  case (1 s this)
  from "1.prems"(1) have lt: "this < length (menus s)"
    by (subst (asm) onCloseRequest.simps) (simp split: if_splits)
  from "1.prems"(1) lt obtain M where M: "closeHead (menus s ! this) = Inr M"
    by (subst (asm) onCloseRequest.simps) (auto split: sum.splits)
  note hl = closeHead_links [OF M]
  let ?s1 = "s\<lparr>menus := (menus s)[this := M]\<rparr>"
  have ok1: "linksOk ?s1"
    by (rule linksOk_same_links [OF _ _ "1.prems"(2)]) (auto simp: nth_update_cases hl)
  show ?case
  proof (cases "childMenu M")
    case None
    from "1.prems"(1) lt M None have s': "s' = closeTail this ?s1"
      by (subst (asm) onCloseRequest.simps) simp
    show ?thesis unfolding s' using ok1 lt by (intro linksOk_closeTail) simp_all
  next
    case (Some c)
    let ?s2 = "s\<lparr>menus := (menus s)[this := M\<lparr>childIndex := -1, childMenu := None\<rparr>]\<rparr>"
    let ?s3 = "modify c (\<lambda>C. C\<lparr>parentMenu := None\<rparr>) ?s2"
    from "1.prems"(1) lt M Some obtain s4 where
      s4: "onCloseRequest ?s3 c = Inr s4" and s': "s' = closeTail this s4"
      by (subst (asm) onCloseRequest.simps) (auto split: sum.splits)
    have e: "?s3 = unlink this c ?s1" using lt by (simp add: unlink_def modify_def)
    have "linksOk (unlink this c ?s1)" using ok1 lt Some
      by (intro linksOk_unlink) simp_all
    then have "linksOk ?s3" using e by simp
    from "1.IH" [OF lt M Some s4 this] have ok4: "linksOk s4" .
    have "length (menus s4) = length (menus s)"
      using onCloseRequest_post [OF s4] by (simp add: resetsAll_def)
    then show ?thesis unfolding s' using ok4 lt by (intro linksOk_closeTail) simp_all
  qed
qed

lemma linksOk_closeChildMenu:
  assumes "closeChildMenu this s = Inr s'" "linksOk s" "this < length (menus s)"
  shows "linksOk s'"
proof (cases "childMenu (menus s ! this)")
  case None
  with assms show ?thesis by (simp add: closeChildMenu_def)
next
  case (Some c)
  with assms(1) have "onCloseRequest (unlink this c s) c = Inr s'"
    by (simp add: closeChildMenu_def close_def unlink_def)
  moreover have "linksOk (unlink this c s)" using assms(2,3) Some by (rule linksOk_unlink)
  ultimately show ?thesis by (rule linksOk_close)
qed

text \<open>The relation between a menu and its open child, and the stores in which the open menus
  form no cycle.\<close>

definition childRel :: "state \<Rightarrow> (ref \<times> ref) set" where
  "childRel s = {(m, c). m < length (menus s) \<and> childMenu (menus s ! m) = Some c}"

definition tree :: "state \<Rightarrow> bool" where
  "tree s \<longleftrightarrow> acyclic (childRel s)"

lemma childRel_resetsAll: "resetsAll s s' \<Longrightarrow> childRel s' \<subseteq> childRel s"
  by (auto simp: childRel_def resetsAll_def resets_def)

lemma tree_resetsAll: "resetsAll s s' \<Longrightarrow> tree s \<Longrightarrow> tree s'"
  unfolding tree_def by (rule acyclic_subset [OF _ childRel_resetsAll])

lemma childRel_quietStep: "quietStep s s' \<Longrightarrow> childRel s' = childRel s"
  by (auto simp: childRel_def quietStep_def quiet_def)

lemma tree_quietStep: "quietStep s s' \<Longrightarrow> tree s \<Longrightarrow> tree s'"
  by (simp add: tree_def childRel_quietStep)

lemma unlink_resetsAll: "resetsAll s (unlink this c s)"
  unfolding unlink_def
  by (rule resetsAll_trans [OF resetsAll_modify resetsAll_modify]) (simp_all add: resets_def)

text \<open>Closing a menu changes no menu outside the chain of open children below it, its parent
  menu apart; so, where the open menus form no cycle, closing the child of a menu leaves
  the selection of that menu as it is.\<close>

lemma close_frame:
  "onCloseRequest s m = Inr s' \<Longrightarrow> (m, x) \<notin> (childRel s)\<^sup>* \<Longrightarrow>
   parentMenu (menus s ! m) \<noteq> Some x \<Longrightarrow> x < length (menus s) \<Longrightarrow>
   menus s' ! x = menus s ! x"
proof (induction s m arbitrary: s' rule: onCloseRequest.induct)
  case (1 s this)
  from "1.prems"(1) have lt: "this < length (menus s)"
    by (subst (asm) onCloseRequest.simps) (simp split: if_splits)
  from "1.prems"(1) lt obtain M where M: "closeHead (menus s ! this) = Inr M"
    by (subst (asm) onCloseRequest.simps) (auto split: sum.splits)
  note hl = closeHead_links [OF M]
  from "1.prems"(2) have xne: "x \<noteq> this" by auto
  show ?case
  proof (cases "childMenu M")
    case None
    let ?s1 = "s\<lparr>menus := (menus s)[this := M]\<rparr>"
    from "1.prems"(1) lt M None have s': "s' = closeTail this ?s1"
      by (subst (asm) onCloseRequest.simps) simp
    have "menus (closeTail this ?s1) ! x = menus ?s1 ! x"
      using "1.prems"(3,4) xne lt hl by (intro closeTail_nth) simp_all
    then show ?thesis unfolding s' using xne by simp
  next
    case (Some c)
    let ?s2 = "s\<lparr>menus := (menus s)[this := M\<lparr>childIndex := -1, childMenu := None\<rparr>]\<rparr>"
    let ?s3 = "modify c (\<lambda>C. C\<lparr>parentMenu := None\<rparr>) ?s2"
    from "1.prems"(1) lt M Some obtain s4 where
      s4: "onCloseRequest ?s3 c = Inr s4" and s': "s' = closeTail this s4"
      by (subst (asm) onCloseRequest.simps) (auto split: sum.splits)
    have edge: "(this, c) \<in> childRel s" using lt Some hl by (simp add: childRel_def)
    then have xc: "x \<noteq> c" using "1.prems"(2) by auto
    have ltc: "c < length (menus s)" using onCloseRequest_post [OF s4] by simp
    have r3: "resetsAll s ?s3"
    proof -
      have "resetsAll s (s\<lparr>menus := (menus s)[this := M]\<rparr>)"
        using closeHead_resets [OF M] lt by (auto simp: resetsAll_def nth_update_cases)
      moreover have "?s3 = unlink this c (s\<lparr>menus := (menus s)[this := M]\<rparr>)"
        using lt by (simp add: unlink_def modify_def)
      ultimately show ?thesis using unlink_resetsAll resetsAll_trans by metis
    qed
    have sub: "childRel ?s3 \<subseteq> childRel s" by (rule childRel_resetsAll [OF r3])
    have nr: "(c, x) \<notin> (childRel ?s3)\<^sup>*"
    proof
      assume "(c, x) \<in> (childRel ?s3)\<^sup>*"
      then have "(c, x) \<in> (childRel s)\<^sup>*" using rtrancl_mono [OF sub] by blast
      with edge have "(this, x) \<in> (childRel s)\<^sup>*" by (rule converse_rtrancl_into_rtrancl)
      with "1.prems"(2) show False by simp
    qed
    have p3: "parentMenu (menus ?s3 ! c) \<noteq> Some x" using ltc by simp
    have x3: "menus ?s3 ! x = menus s ! x" using xne xc by simp
    from "1.IH" [OF lt M Some s4 nr p3] "1.prems"(4) have x4: "menus s4 ! x = menus ?s3 ! x"
      by simp
    have r4: "resetsAll ?s3 s4" using onCloseRequest_post [OF s4] by simp
    then have len4: "length (menus s4) = length (menus s)" by (simp add: resetsAll_def)
    from r4 lt have "resets (menus ?s3 ! this) (menus s4 ! this)" by (simp add: resetsAll_def)
    then have "parentMenu (menus s4 ! this) = parentMenu (menus ?s3 ! this) \<or>
        parentMenu (menus s4 ! this) = None" by (simp add: resets_def)
    moreover have "parentMenu (menus ?s3 ! this) = parentMenu (menus s ! this) \<or>
        parentMenu (menus ?s3 ! this) = None"
      using lt hl by (auto simp: nth_update_cases)
    ultimately have p4: "parentMenu (menus s4 ! this) \<noteq> Some x" using "1.prems"(3) by auto
    have "menus (closeTail this s4) ! x = menus s4 ! x"
      using "1.prems"(4) len4 xne p4 by (intro closeTail_nth) simp_all
    then show ?thesis unfolding s' using x4 x3 by simp
  qed
qed

lemma closeChildMenu_frame:
  assumes "closeChildMenu this s = Inr s1" "tree s" "this < length (menus s)"
  shows "activeIndex (menus s1 ! this) = activeIndex (menus s ! this) \<and>
         childMenu (menus s1 ! this) = None"
proof (cases "childMenu (menus s ! this)")
  case None
  with assms show ?thesis by (simp add: closeChildMenu_def)
next
  case (Some c)
  with assms(1) have cl: "onCloseRequest (unlink this c s) c = Inr s1"
    by (simp add: closeChildMenu_def close_def unlink_def)
  have edge: "(this, c) \<in> childRel s" using assms(3) Some by (simp add: childRel_def)
  have ac: "acyclic (childRel s)" using assms(2) by (simp add: tree_def)
  have ne: "this \<noteq> c"
  proof
    assume "this = c"
    with edge have "(c, c) \<in> (childRel s)\<^sup>+" by auto
    with ac show False by (simp add: acyclic_def)
  qed
  have ltc: "c < length (menus s)" using onCloseRequest_post [OF cl] by simp
  have sub: "childRel (unlink this c s) \<subseteq> childRel s"
    by (rule childRel_resetsAll [OF unlink_resetsAll])
  have nr: "(c, this) \<notin> (childRel (unlink this c s))\<^sup>*"
  proof
    assume "(c, this) \<in> (childRel (unlink this c s))\<^sup>*"
    then have "(c, this) \<in> (childRel s)\<^sup>*" using rtrancl_mono [OF sub] by blast
    with edge have "(this, this) \<in> (childRel s)\<^sup>+" by (rule rtrancl_into_trancl2)
    with ac show False by (simp add: acyclic_def)
  qed
  have pn: "parentMenu (menus (unlink this c s) ! c) \<noteq> Some this"
    using ltc by (simp add: unlink_nth)
  from close_frame [OF cl nr pn] assms(3)
  have "menus s1 ! this = menus (unlink this c s) ! this" by simp
  then show ?thesis using assms(3) ne by (simp add: unlink_nth)
qed

text \<open>Every submenu of the items of \<open>m\<close> is another menu of the store that is the open child
  of \<open>m\<close> or is not linked (it has no parent menu and no open child).\<close>

definition submenusClosed :: "state \<Rightarrow> ref \<Rightarrow> bool" where
  "submenusClosed s m \<longleftrightarrow>
     list_all
       (\<lambda>item. case submenu item of
          None \<Rightarrow> True
        | Some c \<Rightarrow>
            c < length (menus s) \<and> c \<noteq> m \<and>
            (childMenu (menus s ! m) = Some c \<or>
             parentMenu (menus s ! c) = None \<and> childMenu (menus s ! c) = None))
       (items (menus s ! m))"

lemma submenusClosedD:
  "submenusClosed s m \<Longrightarrow> item \<in> set (items (menus s ! m)) \<Longrightarrow> submenu item = Some c \<Longrightarrow>
   c < length (menus s) \<and> c \<noteq> m \<and>
   (childMenu (menus s ! m) = Some c \<or>
    parentMenu (menus s ! c) = None \<and> childMenu (menus s ! c) = None)"
  by (auto simp: submenusClosed_def list_all_iff split: option.splits)

lemma submenusClosed_localStep:
  assumes "submenusClosed s m" "localStep s s'" "m < length (menus s)"
  shows "submenusClosed s' m"
proof -
  from assms(2,3) have i: "items (menus s' ! m) = items (menus s ! m)"
    "childMenu (menus s' ! m) = childMenu (menus s ! m)"
    by (simp_all add: localStep_def selStep_def)
  have "\<And>c. c < length (menus s) \<Longrightarrow> parentMenu (menus s' ! c) = parentMenu (menus s ! c) \<and>
      childMenu (menus s' ! c) = childMenu (menus s ! c)"
    using assms(2) by (simp add: localStep_def selStep_def)
  moreover have "length (menus s') = length (menus s)" using assms(2) by (simp add: localStep_def)
  ultimately show ?thesis using assms(1) i
    by (auto simp: submenusClosed_def list_all_iff split: option.splits)
qed

lemma activeItem_mem:
  "activeItem M = Some item \<Longrightarrow> item \<in> set (items M) \<and> activeIndex M \<noteq> -1"
  by (auto simp: activeItem_def vec_at_def Let_def split: if_splits)

lemma linked_nth:
  "x < length (menus s) \<Longrightarrow> this \<noteq> c \<Longrightarrow> menus (linked this c s) ! x =
     (if x = c then (menus s ! c)\<lparr>parentMenu := Some this\<rparr>
      else if x = this
        then (menus s ! this)\<lparr>childMenu := Some c, childIndex := activeIndex (menus s ! this)\<rparr>
      else menus s ! x)"
  by (auto simp: linked_def nth_update_cases)

lemma linked_length [simp]: "length (menus (linked this c s)) = length (menus s)"
  by (simp add: linked_def)


text \<open>In a consistent store of valid menus \<^verbatim>\<open>onCloseRequest\<close> and \<^verbatim>\<open>_closeChildMenu\<close>
  return: the child of a menu is a menu of the store, and the setter does not raise on a
  valid menu.\<close>

lemma unlink_allOk: "allOk s \<Longrightarrow> allOk (unlink this c s)"
  by (rule allOk_resetsAll [OF unlink_resetsAll])

lemma onCloseRequest_returns:
  "allOk s \<Longrightarrow> linksOk s \<Longrightarrow> this < length (menus s) \<Longrightarrow> \<exists>s'. onCloseRequest s this = Inr s'"
proof (induction s this rule: onCloseRequest.induct)
  case (1 s this)
  note lt = "1.prems"(3)
  from closeHead_ok [OF allOk_nth [OF "1.prems"(1) lt]] obtain M where
    M: "closeHead (menus s ! this) = Inr M" and ok: "menuOk M" by blast
  note hl = closeHead_links [OF M]
  let ?s1 = "s\<lparr>menus := (menus s)[this := M]\<rparr>"
  show ?case
  proof (cases "childMenu M")
    case None
    with lt M show ?thesis by (subst onCloseRequest.simps) simp
  next
    case (Some c)
    let ?s2 = "s\<lparr>menus := (menus s)[this := M\<lparr>childIndex := -1, childMenu := None\<rparr>]\<rparr>"
    let ?s3 = "modify c (\<lambda>C. C\<lparr>parentMenu := None\<rparr>) ?s2"
    have r1: "resetsAll s ?s1"
      using closeHead_resets [OF M] lt by (auto simp: resetsAll_def nth_update_cases)
    have ok1: "linksOk ?s1"
      by (rule linksOk_same_links [OF _ _ "1.prems"(2)]) (auto simp: nth_update_cases hl)
    have a1: "allOk ?s1" using r1 "1.prems"(1) by (rule allOk_resetsAll)
    have e: "?s3 = unlink this c ?s1" using lt by (simp add: unlink_def modify_def)
    have c1: "childMenu (menus ?s1 ! this) = Some c" using lt Some by simp
    have l3: "linksOk ?s3" unfolding e using ok1 _ c1 by (rule linksOk_unlink) (simp add: lt)
    have a3: "allOk ?s3" unfolding e using a1 by (rule unlink_allOk)
    have ltc: "c < length (menus ?s3)"
      using linksOk_childD [OF ok1 _ c1] lt by simp
    from "1.IH" [OF lt M Some a3 l3 ltc] obtain s4 where "onCloseRequest ?s3 c = Inr s4" by blast
    with lt M Some show ?thesis by (subst onCloseRequest.simps) simp
  qed
qed

lemma closeChildMenu_returns:
  assumes "allOk s" "linksOk s" "this < length (menus s)"
  shows "\<exists>s'. closeChildMenu this s = Inr s'"
proof (cases "childMenu (menus s ! this)")
  case None
  then show ?thesis by (simp add: closeChildMenu_def)
next
  case (Some c)
  have e: "closeChildMenu this s = onCloseRequest (unlink this c s) c"
    using Some by (simp add: closeChildMenu_def close_def unlink_def)
  have "linksOk (unlink this c s)" using assms(2,3) Some by (rule linksOk_unlink)
  moreover have "allOk (unlink this c s)" using assms(1) by (rule unlink_allOk)
  moreover have "c < length (menus (unlink this c s))"
    using linksOk_childD [OF assms(2,3) Some] by simp
  ultimately show ?thesis unfolding e by (intro onCloseRequest_returns)
qed

text \<open>The links after a close and after \<^verbatim>\<open>_closeChildMenu\<close>: the closed menu has no child
  and no parent menu, its former parent menu has no child and its former child has no
  parent menu.\<close>

lemma close_post_links:
  assumes "onCloseRequest s m = Inr s'" "linksOk s"
  shows "childMenu (menus s' ! m) = None \<and> childIndex (menus s' ! m) = -1 \<and>
     parentMenu (menus s' ! m) = None \<and>
     (\<forall>p. parentMenu (menus s ! m) = Some p \<longrightarrow> childMenu (menus s' ! p) = None) \<and>
     (\<forall>c. childMenu (menus s ! m) = Some c \<longrightarrow> parentMenu (menus s' ! c) = None)"
proof -
  from onCloseRequest_post [OF assms(1)] have r: "resetsAll s s'"
    and cl: "isClosed (menus s' ! m)" and lt: "m < length (menus s)" by simp_all
  from r have len: "length (menus s') = length (menus s)" by (simp add: resetsAll_def)
  have ok': "linksOk s'" using assms by (rule linksOk_close)
  from cl have n: "childMenu (menus s' ! m) = None" "parentMenu (menus s' ! m) = None"
    by (simp_all add: isClosed_def)
  note a' = ok' [unfolded linksOk_iff, rule_format]
  have i: "childIndex (menus s' ! m) = -1" using a' [of m] lt len n by simp
  have p: "childMenu (menus s' ! p) = None" if "parentMenu (menus s ! m) = Some p" for p
  proof (rule ccontr)
    assume ne: "childMenu (menus s' ! p) \<noteq> None"
    from linksOk_parentD [OF assms(2) lt that] have pl: "p < length (menus s)"
      and pc: "childMenu (menus s ! p) = Some m" by simp_all
    from r pl have "resets (menus s ! p) (menus s' ! p)" by (simp add: resetsAll_def)
    with ne pc have "childMenu (menus s' ! p) = Some m" by (auto simp: resets_def)
    with a' [of p] pl len have "parentMenu (menus s' ! m) = Some p" by simp
    with n show False by simp
  qed
  have c: "parentMenu (menus s' ! c) = None" if "childMenu (menus s ! m) = Some c" for c
  proof (rule ccontr)
    assume ne: "parentMenu (menus s' ! c) \<noteq> None"
    from linksOk_childD [OF assms(2) lt that] have cl: "c < length (menus s)"
      and cp: "parentMenu (menus s ! c) = Some m" by simp_all
    from r cl have "resets (menus s ! c) (menus s' ! c)" by (simp add: resetsAll_def)
    with ne cp have "parentMenu (menus s' ! c) = Some m" by (auto simp: resets_def)
    with a' [of c] cl len have "childMenu (menus s' ! m) = Some c" by simp
    with n show False by simp
  qed
  from n i p c show ?thesis by blast
qed

lemma closeChildMenu_post_links:
  assumes "closeChildMenu this s = Inr s'" "linksOk s" "this < length (menus s)"
  shows "childMenu (menus s' ! this) = None \<and> childIndex (menus s' ! this) = -1 \<and>
     (\<forall>c. childMenu (menus s ! this) = Some c \<longrightarrow> parentMenu (menus s' ! c) = None)"
proof (cases "childMenu (menus s ! this)")
  case None
  with assms have "s' = s" by (simp add: closeChildMenu_def)
  moreover have "childIndex (menus s ! this) = -1"
    using assms(2) [unfolded linksOk_iff, rule_format, OF assms(3)] None by simp
  ultimately show ?thesis using None by simp
next
  case (Some c)
  with assms(1) have cl: "onCloseRequest (unlink this c s) c = Inr s'"
    by (simp add: closeChildMenu_def close_def unlink_def)
  from onCloseRequest_post [OF cl] have r: "resetsAll (unlink this c s) s'"
    and ic: "isClosed (menus s' ! c)" by simp_all
  from r assms(3) have "resets (menus (unlink this c s) ! this) (menus s' ! this)"
    by (simp add: resetsAll_def)
  moreover have "childMenu (menus (unlink this c s) ! this) = None"
    "childIndex (menus (unlink this c s) ! this) = -1"
    using assms(3) by (simp_all add: unlink_links)
  ultimately have "childMenu (menus s' ! this) = None \<and> childIndex (menus s' ! this) = -1"
    by (auto simp: resets_def)
  with ic Some show ?thesis by (simp add: isClosed_def)
qed

text \<open>Linking a menu that has no open child to a menu that has no parent menu keeps the
  invariant, and adds no cycle when that menu has no open child either.\<close>

lemma linked_links:
  assumes "x < length (menus s)"
  shows "childMenu (menus (linked this c s) ! x) =
           (if x = this then Some c else childMenu (menus s ! x)) \<and>
         childIndex (menus (linked this c s) ! x) =
           (if x = this then activeIndex (menus s ! this) else childIndex (menus s ! x)) \<and>
         parentMenu (menus (linked this c s) ! x) =
           (if x = c then Some this else parentMenu (menus s ! x))"
  using assms by (auto simp: linked_def nth_update_cases)

lemma linksOk_linked:
  assumes "linksOk s" "this < length (menus s)" "c < length (menus s)"
    "parentMenu (menus s ! c) = None" "childMenu (menus s ! this) = None"
    "activeIndex (menus s ! this) \<noteq> -1"
  shows "linksOk (linked this c s)"
proof -
  note a = assms(1) [unfolded linksOk_iff, rule_format]
  let ?t = "linked this c s"
  note u = linked_links [of _ s this c]
  show ?thesis
    unfolding linksOk_iff
  proof (intro allI impI)
    fix m assume "m < length (menus ?t)"
    then have m: "m < length (menus s)" by simp
    note l = a [OF m]
    have 1: "childMenu (menus ?t ! m) \<noteq> None \<longleftrightarrow> childIndex (menus ?t ! m) \<noteq> -1"
      using l m assms(6) by (simp add: u)
    have 2: "\<forall>c'. childMenu (menus ?t ! m) = Some c' \<longrightarrow>
        c' < length (menus ?t) \<and> parentMenu (menus ?t ! c') = Some m"
    proof (intro allI impI)
      fix c' assume h: "childMenu (menus ?t ! m) = Some c'"
      show "c' < length (menus ?t) \<and> parentMenu (menus ?t ! c') = Some m"
      proof (cases "m = this")
        case True
        with h m have "c' = c" by (simp add: u)
        with True assms(3) show ?thesis by (simp add: u)
      next
        case False
        with h m have ch: "childMenu (menus s ! m) = Some c'" by (simp add: u)
        from l ch have c': "c' < length (menus s)" "parentMenu (menus s ! c') = Some m" by auto
        with assms(4) have "c' \<noteq> c" by auto
        with c' show ?thesis by (simp add: u)
      qed
    qed
    have 3: "\<forall>p. parentMenu (menus ?t ! m) = Some p \<longrightarrow>
        p < length (menus ?t) \<and> childMenu (menus ?t ! p) = Some m"
    proof (intro allI impI)
      fix p assume h: "parentMenu (menus ?t ! m) = Some p"
      show "p < length (menus ?t) \<and> childMenu (menus ?t ! p) = Some m"
      proof (cases "m = c")
        case True
        with h m have "p = this" by (simp add: u)
        with True assms(2) show ?thesis by (simp add: u)
      next
        case False
        with h m have pa: "parentMenu (menus s ! m) = Some p" by (simp add: u)
        from l pa have p: "p < length (menus s)" "childMenu (menus s ! p) = Some m" by auto
        with assms(5) have "p \<noteq> this" by auto
        with p show ?thesis by (simp add: u)
      qed
    qed
    from 1 2 3 show "(childMenu (menus ?t ! m) \<noteq> None \<longleftrightarrow> childIndex (menus ?t ! m) \<noteq> -1) \<and>
      (\<forall>c'. childMenu (menus ?t ! m) = Some c' \<longrightarrow>
        c' < length (menus ?t) \<and> parentMenu (menus ?t ! c') = Some m) \<and>
      (\<forall>p. parentMenu (menus ?t ! m) = Some p \<longrightarrow>
        p < length (menus ?t) \<and> childMenu (menus ?t ! p) = Some m)"
      by blast
  qed
qed

lemma childRel_linked:
  assumes "this < length (menus s)" "c < length (menus s)" "this \<noteq> c"
    "childMenu (menus s ! this) = None"
  shows "childRel (linked this c s) = insert (this, c) (childRel s)"
  using assms by (auto simp: childRel_def linked_nth split: if_splits)

lemma tree_linked:
  assumes "tree s" "this < length (menus s)" "c < length (menus s)" "this \<noteq> c"
    "childMenu (menus s ! this) = None" "childMenu (menus s ! c) = None"
  shows "tree (linked this c s)"
proof -
  have "(c, this) \<notin> (childRel s)\<^sup>*"
  proof
    assume "(c, this) \<in> (childRel s)\<^sup>*"
    then show False
    proof (cases rule: converse_rtranclE)
      case base
      with assms(4) show ?thesis by simp
    next
      case (step y)
      with assms(6) show ?thesis by (simp add: childRel_def)
    qed
  qed
  with assms(1) show ?thesis
    unfolding tree_def childRel_linked [OF assms(2,3,4,5)] by (simp add: acyclic_insert)
qed

text \<open>The statements of \<^verbatim>\<open>Menu._openChildMenu\<close> before its last one, the call of
  \<^verbatim>\<open>Private.openSubmenu\<close>: the child is closed when the active item has no submenu, nothing
  is done when the submenu is the open child, and otherwise the open child is closed and
  the three link fields are written. \<open>openChildMenu\<close> is this followed by the placement of
  the submenu, which changes no link; so the store \<open>linkChildMenu\<close> returns holds the links
  that \<^verbatim>\<open>_openChildMenu\<close> leaves, whether the placement returns or raises.\<close>

definition linkChildMenu :: "ref \<Rightarrow> state \<Rightarrow> error + state" where
  "linkChildMenu this s =
     (case activeItem (menus s ! this) of
        None \<Rightarrow> closeChildMenu this s
      | Some item \<Rightarrow>
         (if type item \<noteq> Submenu \<or> submenu item = None then closeChildMenu this s
          else if submenu item = childMenu (menus s ! this) then Inr s
          else
            (case closeChildMenu this s of
               Inl e \<Rightarrow> Inl e
             | Inr s \<Rightarrow>
                (let menu = the (submenu item);
                     s = modify this
                           (\<lambda>M. M\<lparr>childMenu := Some menu, childIndex := activeIndex M\<rparr>) s;
                     s = modify menu (\<lambda>C. C\<lparr>parentMenu := Some this\<rparr>) s
                 in Inr s))))"

lemma openChildMenu_linkChildMenu:
  "openChildMenu env this s =
     (case linkChildMenu this s of
        Inl e \<Rightarrow> Inl e
      | Inr s1 \<Rightarrow>
         (case activeItem (menus s ! this) of
            None \<Rightarrow> Inr s1
          | Some item \<Rightarrow>
             if type item \<noteq> Submenu \<or> submenu item = None \<or>
                submenu item = childMenu (menus s ! this) then Inr s1
             else onMenu (the (submenu item))
                    (openSubmenu env (activeItemNode (menus s1 ! this))) s1))"
  by (simp add: openChildMenu_def linkChildMenu_def Let_def split: option.splits sum.splits)

lemma openChildMenu_links:
  assumes "openChildMenu env this s = Inr s'"
  shows "\<exists>s1. linkChildMenu this s = Inr s1 \<and> localStep s1 s'"
proof -
  from assms obtain s1 where l: "linkChildMenu this s = Inr s1"
    by (auto simp: openChildMenu_linkChildMenu split: sum.splits)
  have "localStep s1 s'"
    using assms l openSubmenu_localStep
    by (auto simp: openChildMenu_linkChildMenu split: option.splits if_splits)
  with l show ?thesis by blast
qed

text \<open>The three outcomes of \<open>linkChildMenu\<close>, and what each does to the links on a menu whose
  submenus are closed.\<close>

lemma linkChildMenu_cases:
  assumes "linkChildMenu this s = Inr s'"
  obtains "closeChildMenu this s = Inr s'"
      "activeItem (menus s ! this) = None \<or>
       (\<exists>item. activeItem (menus s ! this) = Some item \<and>
          (type item \<noteq> Submenu \<or> submenu item = None))"
  | item c where "s' = s" "activeItem (menus s ! this) = Some item" "type item = Submenu"
      "submenu item = Some c" "childMenu (menus s ! this) = Some c"
  | item c s1 where "activeItem (menus s ! this) = Some item" "type item = Submenu"
      "submenu item = Some c" "childMenu (menus s ! this) \<noteq> Some c"
      "closeChildMenu this s = Inr s1" "s' = linked this c s1"
proof (cases "activeItem (menus s ! this)")
  case None
  with assms that(1) show ?thesis by (simp add: linkChildMenu_def)
next
  case (Some item)
  show ?thesis
  proof (cases "type item \<noteq> Submenu \<or> submenu item = None")
    case True
    with assms Some that(1) show ?thesis by (auto simp: linkChildMenu_def)
  next
    case False
    then obtain c where c: "submenu item = Some c" "type item = Submenu" by auto
    show ?thesis
    proof (cases "childMenu (menus s ! this) = Some c")
      case True
      with assms Some c that(2) show ?thesis by (simp add: linkChildMenu_def)
    next
      case False
      with assms Some c obtain s1 where "closeChildMenu this s = Inr s1" "s' = linked this c s1"
        by (auto simp: linkChildMenu_def linked_def Let_def split: sum.splits)
      with Some c False that(3) show ?thesis by blast
    qed
  qed
qed

lemma links_linkChildMenu:
  assumes "linkChildMenu this s = Inr s'" "linksOk s" "tree s" "this < length (menus s)"
    "submenusClosed s this"
  shows "linksOk s' \<and> tree s' \<and>
    (\<forall>item c. activeItem (menus s ! this) = Some item \<and> type item = Submenu \<and>
        submenu item = Some c \<longrightarrow>
      childMenu (menus s' ! this) = Some c \<and> parentMenu (menus s' ! c) = Some this) \<and>
    (activeItem (menus s ! this) = None \<or>
     (\<exists>item. activeItem (menus s ! this) = Some item \<and>
        (type item \<noteq> Submenu \<or> submenu item = None)) \<longrightarrow>
      childMenu (menus s' ! this) = None \<and> childIndex (menus s' ! this) = -1)"
  using assms(1)
proof (cases rule: linkChildMenu_cases)
  case 1
  have "linksOk s'" using 1(1) assms(2,4) by (rule linksOk_closeChildMenu)
  moreover have "tree s'" using closeChildMenu_resetsAll [OF 1(1)] assms(3) by (rule tree_resetsAll)
  moreover note closeChildMenu_post_links [OF 1(1) assms(2,4)]
  ultimately show ?thesis using 1(2) by auto
next
  case (2 item c)
  from linksOk_childD [OF assms(2,4) 2(5)] have "parentMenu (menus s ! c) = Some this" by simp
  with 2 assms(2,3) show ?thesis by auto
next
  case (3 item c s1)
  note r1 = closeChildMenu_resetsAll [OF 3(5)]
  then have len1: "length (menus s1) = length (menus s)" by (simp add: resetsAll_def)
  have ok1: "linksOk s1" using 3(5) assms(2,4) by (rule linksOk_closeChildMenu)
  have t1: "tree s1" using r1 assms(3) by (rule tree_resetsAll)
  from closeChildMenu_frame [OF 3(5) assms(3,4)] activeItem_mem [OF 3(1)]
  have a1: "activeIndex (menus s1 ! this) \<noteq> -1" "childMenu (menus s1 ! this) = None"
    and mem: "item \<in> set (items (menus s ! this))" by simp_all
  from submenusClosedD [OF assms(5) mem 3(3)] 3(4)
  have c: "c < length (menus s)" "c \<noteq> this" "parentMenu (menus s ! c) = None"
    "childMenu (menus s ! c) = None" by auto
  from r1 c(1) have "resets (menus s ! c) (menus s1 ! c)" by (simp add: resetsAll_def)
  with c have c1: "parentMenu (menus s1 ! c) = None" "childMenu (menus s1 ! c) = None"
    by (auto simp: resets_def)
  have lt1: "this < length (menus s1)" "c < length (menus s1)" using assms(4) c(1) len1 by simp_all
  have ne: "this \<noteq> c" using c(2) by simp
  have "linksOk (linked this c s1)"
    using ok1 lt1 c1(1) a1(2) a1(1) by (rule linksOk_linked)
  moreover have "tree (linked this c s1)"
    using t1 lt1 ne a1(2) c1(2) by (rule tree_linked)
  moreover have "childMenu (menus (linked this c s1) ! this) = Some c"
    "parentMenu (menus (linked this c s1) ! c) = Some this"
    using lt1 by (simp_all add: linked_links)
  ultimately show ?thesis using 3(1,2,3,6) by auto
qed

lemma linkChildMenu_returns:
  assumes "allOk s" "linksOk s" "this < length (menus s)"
  shows "\<exists>s'. linkChildMenu this s = Inr s'"
  using closeChildMenu_returns [OF assms]
  by (auto simp: linkChildMenu_def Let_def split: option.splits)

lemma links_openChildMenu:
  assumes "openChildMenu env this s = Inr s'" "linksOk s" "tree s" "this < length (menus s)"
    "submenusClosed s this"
  shows "linksOk s' \<and> tree s'"
proof -
  from openChildMenu_links [OF assms(1)] obtain s1 where
    l: "linkChildMenu this s = Inr s1" and st: "localStep s1 s'" by blast
  from links_linkChildMenu [OF l assms(2-5)] have "linksOk s1" "tree s1" by simp_all
  with st show ?thesis using linksOk_localStep tree_quietStep [OF localStep_quietStep] by blast
qed

text \<open>Every operation keeps the invariant, when it opens a child only on a menu whose
  submenus are closed.\<close>

lemma links_linkChange:
  assumes "linkChange env this mayOpen s s'" "linksOk s" "tree s"
    "mayOpen \<longrightarrow> submenusClosed s this" "this < length (menus s)"
  shows "linksOk s' \<and> tree s'"
proof -
  from assms(1) consider "s' = s" | r where "onCloseRequest s r = Inr s'"
    | "closeChildMenu this s = Inr s'" | "mayOpen" "openChildMenu env this s = Inr s'"
    unfolding linkChange_def by blast
  then show ?thesis
  proof cases
    case 1
    with assms show ?thesis by simp
  next
    case 2
    with assms show ?thesis using linksOk_close onCloseRequest_post tree_resetsAll by blast
  next
    case 3
    with assms show ?thesis
      using linksOk_closeChildMenu tree_resetsAll [OF closeChildMenu_resetsAll] by blast
  next
    case 4
    with assms show ?thesis using links_openChildMenu by blast
  qed
qed

lemma links_reaches:
  assumes "reaches env this mayOpen s s'" "linksOk s" "tree s"
    "mayOpen \<longrightarrow> submenusClosed s this" "this < length (menus s)"
  shows "linksOk s' \<and> tree s'"
proof -
  from assms(1) obtain s1 s2 where a: "localStep s s1" and b: "linkChange env this mayOpen s1 s2"
    and c: "quietStep s2 s'" unfolding reaches_def by blast
  have "linksOk s1" "tree s1" using a assms(2,3) linksOk_localStep tree_quietStep localStep_quietStep
    by blast+
  moreover have "mayOpen \<longrightarrow> submenusClosed s1 this"
    using assms(4,5) a submenusClosed_localStep by blast
  moreover have "this < length (menus s1)" using a assms(5) by (simp add: localStep_def)
  ultimately have "linksOk s2 \<and> tree s2" using b by (intro links_linkChange) auto
  then show ?thesis using c linksOk_quietStep tree_quietStep by blast
qed

text \<open>The condition under which an operation keeps the links consistent: an operation that
  can open a child menu is called on a menu of the store whose submenus are closed.\<close>

definition opensClosed :: "state \<Rightarrow> operation \<Rightarrow> bool" where
  "opensClosed s op \<longleftrightarrow>
     (if opens op then target op < length (menus s) \<and> submenusClosed s (target op) else True)"

lemma linksOk_new:
  assumes "linksOk s"
  shows "linksOk (s\<lparr>menus := menus s @ [Menu_new]\<rparr>)"
proof -
  note a = assms [unfolded linksOk_iff, rule_format]
  let ?t = "s\<lparr>menus := menus s @ [Menu_new]\<rparr>"
  show ?thesis
    unfolding linksOk_iff
  proof (intro allI impI)
    fix m assume m: "m < length (menus ?t)"
    show "(childMenu (menus ?t ! m) \<noteq> None \<longleftrightarrow> childIndex (menus ?t ! m) \<noteq> -1) \<and>
      (\<forall>c. childMenu (menus ?t ! m) = Some c \<longrightarrow>
        c < length (menus ?t) \<and> parentMenu (menus ?t ! c) = Some m) \<and>
      (\<forall>p. parentMenu (menus ?t ! m) = Some p \<longrightarrow>
        p < length (menus ?t) \<and> childMenu (menus ?t ! p) = Some m)"
    proof (cases "m < length (menus s)")
      case True
      from a [OF True] True show ?thesis by (auto simp: nth_append)
    next
      case False
      with m have "m = length (menus s)" by simp
      then show ?thesis by (simp add: nth_append Menu_new_def)
    qed
  qed
qed

lemma tree_new: "tree s \<Longrightarrow> tree (s\<lparr>menus := menus s @ [Menu_new]\<rparr>)"
proof -
  have "childRel (s\<lparr>menus := menus s @ [Menu_new]\<rparr>) = childRel s"
    by (auto simp: childRel_def nth_append Menu_new_def less_Suc_eq)
  then show "tree s \<Longrightarrow> tree (s\<lparr>menus := menus s @ [Menu_new]\<rparr>)" by (simp add: tree_def)
qed

lemma perform_target:
  assumes "perform env op s = Some (Inr s')" "op \<noteq> NewMenu" "s' \<noteq> s"
  shows "target op < length (menus s)"
proof (rule ccontr)
  assume n: "\<not> target op < length (menus s)"
  from assms n show False
    by (cases op)
       (auto simp: perform_def onMenu_def addItem_def insertItem_def removeItem_def
          clearItems_def close_def dispose_def handleEvent_def openTimerCallback_def
          closeTimerCallback_def onCloseRequest.simps split: if_splits sum.splits)
qed

lemma links_perform:
  assumes "perform env op s = Some (Inr s')" "linksOk s" "tree s" "opensClosed s op"
  shows "linksOk s' \<and> tree s'"
proof (cases "op = NewMenu")
  case True
  with assms show ?thesis by (auto simp: perform_def linksOk_new tree_new)
next
  case False
  show ?thesis
  proof (cases "s' = s")
    case True
    with assms show ?thesis by simp
  next
    case ne: False
    from perform_target [OF assms(1) False ne] have lt: "target op < length (menus s)" .
    from assms(4) have "opens op \<longrightarrow> submenusClosed s (target op)"
      by (simp add: opensClosed_def split: if_splits)
    with perform_reaches [OF assms(1) False] assms(2,3) lt show ?thesis
      by (intro links_reaches [where this = "target op" and mayOpen = "opens op"]) auto
  qed
qed

text \<open>The stores reached from the empty store by operations each of which, if it can open a
  child menu, is called on a menu whose submenus are closed.\<close>

inductive reachableClosed :: "state \<Rightarrow> bool" where
  startClosed: "reachableClosed initial"
| stepClosed: "reachableClosed s \<Longrightarrow> opensClosed s op \<Longrightarrow> perform env op s = Some (Inr s') \<Longrightarrow>
     reachableClosed s'"

lemma reachableClosed_links: "reachableClosed s \<Longrightarrow> linksOk s \<and> tree s"
proof (induction rule: reachableClosed.induct)
  case startClosed
  show ?case by (simp add: linksOk_def initial_def tree_def childRel_def acyclic_def)
next
  case (stepClosed s op env s')
  then show ?case using links_perform by blast
qed

lemma reachableClosed_reachable: "reachableClosed s \<Longrightarrow> reachable s"
  by (induction rule: reachableClosed.induct) (auto intro: reachable.intros)

text \<open>The links of a store: the child menu, the child index and the parent menu of every
  menu. The store a call returned (the empty store when it raised).\<close>

definition links :: "state \<Rightarrow> (ref option \<times> int \<times> ref option) list" where
  "links s = map (\<lambda>M. (childMenu M, childIndex M, parentMenu M)) (menus s)"

lemma links_localStep:
  assumes "localStep s s'"
  shows "links s' = links s"
proof -
  from assms have len: "length (menus s') = length (menus s)" by (simp add: localStep_def)
  have "map (\<lambda>M. (childMenu M, childIndex M, parentMenu M)) (menus s') =
        map (\<lambda>M. (childMenu M, childIndex M, parentMenu M)) (menus s)"
  proof (rule nth_equalityI)
    show "length (map (\<lambda>M. (childMenu M, childIndex M, parentMenu M)) (menus s')) =
          length (map (\<lambda>M. (childMenu M, childIndex M, parentMenu M)) (menus s))"
      using len by simp
  next
    fix i assume "i < length (map (\<lambda>M. (childMenu M, childIndex M, parentMenu M)) (menus s'))"
    then have i: "i < length (menus s)" using len by simp
    with assms have "selStep (menus s ! i) (menus s' ! i)" by (simp add: localStep_def)
    then show "map (\<lambda>M. (childMenu M, childIndex M, parentMenu M)) (menus s') ! i =
               map (\<lambda>M. (childMenu M, childIndex M, parentMenu M)) (menus s) ! i"
      using i len by (simp add: selStep_def)
  qed
  then show ?thesis by (simp add: links_def)
qed

definition stateOf :: "error + state \<Rightarrow> state" where
  "stateOf r = (case r of Inl e \<Rightarrow> initial | Inr s \<Rightarrow> s)"

text \<open>Two menus 0 and 1 whose only item has the same submenu 2, both opened, then a release
  of the left button over the item of each; the same two menus with the item made active
  through the setter instead, and the store after the link part of \<^verbatim>\<open>_openChildMenu\<close> on
  each of them.\<close>

definition sharedRun :: "operation list" where
  "sharedRun =
     [NewMenu, NewMenu, NewMenu, AddItem 0 (submenuItem ''S'' 2), AddItem 1 (submenuItem ''S'' 2),
      AddItem 2 (normalItem ''x''), Open 0 0 0 noOptions, Open 1 0 0 noOptions,
      HandleEvent 0 leftClick, HandleEvent 1 leftClick]"

definition sharedHover :: "operation list" where
  "sharedHover =
     [NewMenu, NewMenu, NewMenu, AddItem 0 (submenuItem ''S'' 2), AddItem 1 (submenuItem ''S'' 2),
      AddItem 2 (normalItem ''x''), Open 0 0 0 noOptions, Open 1 0 0 noOptions,
      SetActiveIndex 0 0, SetActiveIndex 1 0]"

definition sharedLinked :: state where
  "sharedLinked =
     stateOf (linkChildMenu 1 (stateOf (linkChildMenu 0 (stateAfter hitFirst sharedHover))))"

text \<open>A run that checks, before each operation, that it opens no child on a menu whose
  submenus are open elsewhere; the stores it returns are reached under that condition.\<close>

fun runClosed :: "Dom \<Rightarrow> operation list \<Rightarrow> state \<Rightarrow> state option" where
  "runClosed env [] s = Some s"
| "runClosed env (op # ops) s =
     (if opensClosed s op
      then (case perform env op s of Some (Inr s') \<Rightarrow> runClosed env ops s' | _ \<Rightarrow> None)
      else None)"

lemma runClosed_reachable:
  "runClosed env ops s = Some s' \<Longrightarrow> reachableClosed s \<Longrightarrow> reachableClosed s'"
proof (induction ops arbitrary: s)
  case Nil
  then show ?case by simp
next
  case (Cons op ops)
  from Cons.prems(1) obtain s1 where g: "opensClosed s op" and p: "perform env op s = Some (Inr s1)"
    and r: "runClosed env ops s1 = Some s'"
    by (auto split: if_splits option.splits sum.splits)
  from Cons.prems(2) g p have "reachableClosed s1" by (rule stepClosed)
  with r show ?case by (rule Cons.IH)
qed

text \<open>One menu with a submenu, opened, with its item made active through the setter, and the
  store after the link part of \<^verbatim>\<open>_openChildMenu\<close> on it.\<close>

definition hoverRun :: "operation list" where
  "hoverRun =
     [NewMenu, NewMenu, AddItem 0 (submenuItem ''S'' 1), AddItem 1 (normalItem ''x''),
      Open 0 0 0 noOptions, SetActiveIndex 0 0]"

definition hoverState :: state where
  "hoverState = stateAfter hitFirst hoverRun"

definition linkedState :: state where
  "linkedState = stateOf (linkChildMenu 0 hoverState)"

text \<open>Claim C2, as stated, fails: a submenu may be the submenu of items of two menus. When
  both menus are displayed and the item is released on in each, the second \<^verbatim>\<open>_openChildMenu\<close>
  sets the parent menu of the submenu to the second menu and leaves the first menu with the
  submenu as its child: afterwards menu 0 has the child 2, whose parent menu is 1. The same
  links are left by the link part of \<^verbatim>\<open>_openChildMenu\<close> alone, before the submenu is
  placed.\<close>

theorem C2_counterexample:
  "performAll hitFirst sharedRun initial = Some (Inr (stateAfter hitFirst sharedRun)) \<and>
   links (stateAfter hitFirst sharedRun) =
     [(Some 2, 0, None), (Some 2, 0, None), (None, -1, Some 1)] \<and>
   childMenu (menus (stateAfter hitFirst sharedRun) ! 0) = Some 2 \<and>
   parentMenu (menus (stateAfter hitFirst sharedRun) ! 2) = Some 1 \<and>
   \<not> linksOk (stateAfter hitFirst sharedRun) \<and>
   performAll hitFirst sharedHover initial = Some (Inr (stateAfter hitFirst sharedHover)) \<and>
   linkChildMenu 0 (stateAfter hitFirst sharedHover) =
     Inr (stateOf (linkChildMenu 0 (stateAfter hitFirst sharedHover))) \<and>
   linkChildMenu 1 (stateOf (linkChildMenu 0 (stateAfter hitFirst sharedHover))) =
     Inr sharedLinked \<and>
   links sharedLinked = [(Some 2, 0, None), (Some 2, 0, None), (None, -1, Some 1)] \<and>
   \<not> linksOk sharedLinked"
  by code_simp

text \<open>That store is reached through the operations of the menus.\<close>

lemma sharedRun_reachable: "reachable (stateAfter hitFirst sharedRun)"
proof -
  have "performAll hitFirst sharedRun initial = Some (Inr (stateAfter hitFirst sharedRun))"
    by code_simp
  then show ?thesis using reachable.start by (rule performAll_reachable)
qed

text \<open>Claim C2, amended: in every store reached from the empty store by operations of which
  those that can open a child menu (a release of the pointer, a key press, the expiry of the
  open timer) are called on a menu whose submenus are each another menu that is its open
  child or has no parent menu and no open child, every menu has a child menu exactly when
  its child index is not \<open>-1\<close>, the parent menu of its child menu is the menu itself, and
  the child menu of its parent menu is the menu itself; in such a store \<^verbatim>\<open>onCloseRequest\<close>,
  \<^verbatim>\<open>_closeChildMenu\<close> and the link part of \<^verbatim>\<open>_openChildMenu\<close> return. From any consistent
  store, \<^verbatim>\<open>onCloseRequest\<close> keeps the invariant and leaves the menu with no child and no
  parent menu, its former parent menu with no child and its former child with no parent
  menu; \<^verbatim>\<open>_closeChildMenu\<close> keeps the invariant and leaves the menu with no child and its
  former child with no parent menu. The link part of \<^verbatim>\<open>_openChildMenu\<close>, on a menu whose
  submenus are closed in that sense in a store where the open menus form no cycle, keeps
  the invariant: the submenu of the active item becomes the child of the menu and the menu
  its parent menu, and the child is closed when the active item has no submenu. When
  \<^verbatim>\<open>_openChildMenu\<close> returns, the links are those its link part left.\<close>

theorem C2_links:
  "(reachableClosed s \<longrightarrow> linksOk s) \<and>
   (reachableClosed s \<and> m < length (menus s) \<longrightarrow>
      (\<exists>s'. onCloseRequest s m = Inr s') \<and> (\<exists>s'. closeChildMenu m s = Inr s') \<and>
      (\<exists>s'. linkChildMenu m s = Inr s')) \<and>
   (linksOk a \<and> onCloseRequest a i = Inr a' \<longrightarrow>
      linksOk a' \<and> childMenu (menus a' ! i) = None \<and> childIndex (menus a' ! i) = -1 \<and>
      parentMenu (menus a' ! i) = None \<and>
      (\<forall>p. parentMenu (menus a ! i) = Some p \<longrightarrow> childMenu (menus a' ! p) = None) \<and>
      (\<forall>c. childMenu (menus a ! i) = Some c \<longrightarrow> parentMenu (menus a' ! c) = None)) \<and>
   (linksOk b \<and> j < length (menus b) \<and> closeChildMenu j b = Inr b' \<longrightarrow>
      linksOk b' \<and> childMenu (menus b' ! j) = None \<and> childIndex (menus b' ! j) = -1 \<and>
      (\<forall>c. childMenu (menus b ! j) = Some c \<longrightarrow> parentMenu (menus b' ! c) = None)) \<and>
   (linksOk c \<and> tree c \<and> k < length (menus c) \<and> submenusClosed c k \<and>
    linkChildMenu k c = Inr c' \<longrightarrow>
      linksOk c' \<and> tree c' \<and>
      (\<forall>item x. activeItem (menus c ! k) = Some item \<and> type item = Submenu \<and>
          submenu item = Some x \<longrightarrow>
        childMenu (menus c' ! k) = Some x \<and> parentMenu (menus c' ! x) = Some k) \<and>
      (activeItem (menus c ! k) = None \<or>
       (\<exists>item. activeItem (menus c ! k) = Some item \<and>
          (type item \<noteq> Submenu \<or> submenu item = None)) \<longrightarrow>
       childMenu (menus c' ! k) = None \<and> childIndex (menus c' ! k) = -1)) \<and>
   (openChildMenu env k c = Inr d \<longrightarrow>
      (\<exists>c1. linkChildMenu k c = Inr c1 \<and> links d = links c1))"
proof -
  have 1: "reachableClosed s \<longrightarrow> linksOk s" using reachableClosed_links by blast
  have 2: "reachableClosed s \<and> m < length (menus s) \<longrightarrow>
      (\<exists>s'. onCloseRequest s m = Inr s') \<and> (\<exists>s'. closeChildMenu m s = Inr s') \<and>
      (\<exists>s'. linkChildMenu m s = Inr s')"
  proof
    assume h: "reachableClosed s \<and> m < length (menus s)"
    then have ok: "allOk s" using reachableClosed_reachable reachable_allOk by blast
    from h have l: "linksOk s" using reachableClosed_links by blast
    from h have lt: "m < length (menus s)" by simp
    from onCloseRequest_returns [OF ok l lt] closeChildMenu_returns [OF ok l lt]
      linkChildMenu_returns [OF ok l lt]
    show "(\<exists>s'. onCloseRequest s m = Inr s') \<and> (\<exists>s'. closeChildMenu m s = Inr s') \<and>
      (\<exists>s'. linkChildMenu m s = Inr s')" by blast
  qed
  have 3: "linksOk a \<and> onCloseRequest a i = Inr a' \<longrightarrow>
      linksOk a' \<and> childMenu (menus a' ! i) = None \<and> childIndex (menus a' ! i) = -1 \<and>
      parentMenu (menus a' ! i) = None \<and>
      (\<forall>p. parentMenu (menus a ! i) = Some p \<longrightarrow> childMenu (menus a' ! p) = None) \<and>
      (\<forall>c. childMenu (menus a ! i) = Some c \<longrightarrow> parentMenu (menus a' ! c) = None)"
  proof
    assume h: "linksOk a \<and> onCloseRequest a i = Inr a'"
    then have p: "onCloseRequest a i = Inr a'" and l: "linksOk a" by simp_all
    from linksOk_close [OF p l] close_post_links [OF p l]
    show "linksOk a' \<and> childMenu (menus a' ! i) = None \<and> childIndex (menus a' ! i) = -1 \<and>
      parentMenu (menus a' ! i) = None \<and>
      (\<forall>p. parentMenu (menus a ! i) = Some p \<longrightarrow> childMenu (menus a' ! p) = None) \<and>
      (\<forall>c. childMenu (menus a ! i) = Some c \<longrightarrow> parentMenu (menus a' ! c) = None)"
      by (rule conjI)
  qed
  have 4: "linksOk b \<and> j < length (menus b) \<and> closeChildMenu j b = Inr b' \<longrightarrow>
      linksOk b' \<and> childMenu (menus b' ! j) = None \<and> childIndex (menus b' ! j) = -1 \<and>
      (\<forall>c. childMenu (menus b ! j) = Some c \<longrightarrow> parentMenu (menus b' ! c) = None)"
  proof
    assume h: "linksOk b \<and> j < length (menus b) \<and> closeChildMenu j b = Inr b'"
    then have p: "closeChildMenu j b = Inr b'" and l: "linksOk b" and lt: "j < length (menus b)"
      by simp_all
    from linksOk_closeChildMenu [OF p l lt] closeChildMenu_post_links [OF p l lt]
    show "linksOk b' \<and> childMenu (menus b' ! j) = None \<and> childIndex (menus b' ! j) = -1 \<and>
      (\<forall>c. childMenu (menus b ! j) = Some c \<longrightarrow> parentMenu (menus b' ! c) = None)"
      by (rule conjI)
  qed
  have 5: "linksOk c \<and> tree c \<and> k < length (menus c) \<and> submenusClosed c k \<and>
    linkChildMenu k c = Inr c' \<longrightarrow>
      linksOk c' \<and> tree c' \<and>
      (\<forall>item x. activeItem (menus c ! k) = Some item \<and> type item = Submenu \<and>
          submenu item = Some x \<longrightarrow>
        childMenu (menus c' ! k) = Some x \<and> parentMenu (menus c' ! x) = Some k) \<and>
      (activeItem (menus c ! k) = None \<or>
       (\<exists>item. activeItem (menus c ! k) = Some item \<and>
          (type item \<noteq> Submenu \<or> submenu item = None)) \<longrightarrow>
       childMenu (menus c' ! k) = None \<and> childIndex (menus c' ! k) = -1)"
  proof
    assume h: "linksOk c \<and> tree c \<and> k < length (menus c) \<and> submenusClosed c k \<and>
      linkChildMenu k c = Inr c'"
    then have p: "linkChildMenu k c = Inr c'" and l: "linksOk c" and t: "tree c"
      and lt: "k < length (menus c)" and g: "submenusClosed c k" by simp_all
    show "linksOk c' \<and> tree c' \<and>
      (\<forall>item x. activeItem (menus c ! k) = Some item \<and> type item = Submenu \<and>
          submenu item = Some x \<longrightarrow>
        childMenu (menus c' ! k) = Some x \<and> parentMenu (menus c' ! x) = Some k) \<and>
      (activeItem (menus c ! k) = None \<or>
       (\<exists>item. activeItem (menus c ! k) = Some item \<and>
          (type item \<noteq> Submenu \<or> submenu item = None)) \<longrightarrow>
       childMenu (menus c' ! k) = None \<and> childIndex (menus c' ! k) = -1)"
      by (rule links_linkChildMenu [OF p l t lt g])
  qed
  have 6: "openChildMenu env k c = Inr d \<longrightarrow>
      (\<exists>c1. linkChildMenu k c = Inr c1 \<and> links d = links c1)"
  proof
    assume "openChildMenu env k c = Inr d"
    from openChildMenu_links [OF this] links_localStep
    show "\<exists>c1. linkChildMenu k c = Inr c1 \<and> links d = links c1" by blast
  qed
  show ?thesis by (rule conjI [OF 1 conjI [OF 2 conjI [OF 3 conjI [OF 4 conjI [OF 5 6]]]]])
qed

text \<open>The statement of C2 for a displayed menu whose active item has a submenu: the links
  before and after the link part of \<^verbatim>\<open>_openChildMenu\<close>, after closing the child from there,
  after \<^verbatim>\<open>_closeChildMenu\<close> from there, and after \<^verbatim>\<open>_openChildMenu\<close> as a whole.\<close>

theorem C2_witness:
  "links hoverState = [(None, -1, None), (None, -1, None)] \<and>
   linksOk hoverState \<and>
   linkChildMenu 0 hoverState = Inr linkedState \<and>
   links linkedState = [(Some 1, 0, None), (None, -1, Some 0)] \<and>
   linksOk linkedState \<and>
   links (stateOf (onCloseRequest linkedState 1)) = [(None, -1, None), (None, -1, None)] \<and>
   linksOk (stateOf (onCloseRequest linkedState 1)) \<and>
   links (stateOf (closeChildMenu 0 linkedState)) = [(None, -1, None), (None, -1, None)] \<and>
   linksOk (stateOf (closeChildMenu 0 linkedState)) \<and>
   links (stateOf (openChildMenu hitFirst 0 hoverState)) = links linkedState"
proof -
  let ?H = hoverState and ?L = linkedState
  let ?A = "stateOf (onCloseRequest linkedState 1)"
  let ?B = "stateOf (closeChildMenu 0 linkedState)"
  let ?D = "stateOf (openChildMenu hitFirst 0 hoverState)"
  note T = C2_links [where s = ?H and m = 0 and a = ?L and i = 1 and a' = ?A and b = ?L and j = 0
      and b' = ?B and c = ?H and k = 0 and c' = ?L and env = hitFirst and d = ?D]
  have "runClosed hitFirst hoverRun initial = Some ?H" by code_simp
  then have rH: "reachableClosed ?H" using startClosed by (rule runClosed_reachable)
  then have tH: "tree ?H" using reachableClosed_links by blast
  from T rH have lH: "linksOk ?H" by blast
  have eH: "links ?H = [(None, -1, None), (None, -1, None)]" by code_simp
  have n: "0 < length (menus ?H)" "submenusClosed ?H 0" "0 < length (menus ?L)" by code_simp+
  have pL: "linkChildMenu 0 ?H = Inr ?L" by code_simp
  from T lH tH n pL have lL: "linksOk ?L" by blast
  have eL: "links ?L = [(Some 1, 0, None), (None, -1, Some 0)]" by code_simp
  have pA: "onCloseRequest ?L 1 = Inr ?A" by code_simp
  from T lL pA have lA: "linksOk ?A" by blast
  have eA: "links ?A = [(None, -1, None), (None, -1, None)]" by code_simp
  have pB: "closeChildMenu 0 ?L = Inr ?B" by code_simp
  from T lL n pB have lB: "linksOk ?B" by blast
  have eB: "links ?B = [(None, -1, None), (None, -1, None)]" by code_simp
  have pD: "openChildMenu hitFirst 0 ?H = Inr ?D" by code_simp
  from T pD pL have eD: "links ?D = links ?L" by auto
  from eH lH pL eL lL eA lA eB lB eD show ?thesis by blast
qed

end
